theory Spec2Isabelle
  imports Main "HOL-Library.Monad_Syntax" "HOL-Library.Sublist"
begin

section \<open>The node heap\<close>

text \<open>
  A node pointer is \<open>None\<close> (the C \<open>NULL\<close>) or \<open>Some a\<close> for an address \<open>a\<close>.
  A payload is the value of a \<open>void *\<close>: the list never dereferences it, it only hands
  it to the comparison function and compares it with \<open>==\<close>; \<open>0\<close> is \<open>NULL\<close>.
\<close>

type_synonym addr = nat
type_synonym ptr = "addr option"
type_synonym payload = nat

record sl_node =
  prev_node :: ptr
  next_node :: ptr
  prev_layer :: ptr
  next_layer :: ptr
  data :: payload

text \<open>
  The store maps the addresses of live nodes to their contents. \<open>malloc\<close> hands out the
  address \<open>brk\<close>, which has never been used, and stores the initial contents of the node
  there (the source assigns all five fields right after each \<open>malloc\<close>). \<open>free\<close> removes
  the node from the store. Reading or writing through \<open>NULL\<close> or through an address that
  is not live, and freeing such an address, is undefined behaviour in C: every
  operation of the model then returns \<open>None\<close>. \<open>None\<close> is also the value of a call that
  does not return.
\<close>

record heap =
  cells :: "addr \<Rightarrow> sl_node option"
  brk :: addr

definition malloc :: "heap \<Rightarrow> sl_node \<Rightarrow> addr \<times> heap" where
  "malloc h n = (brk h, h\<lparr>cells := (cells h)(brk h \<mapsto> n), brk := Suc (brk h)\<rparr>)"

definition free :: "heap \<Rightarrow> ptr \<Rightarrow> heap option" where
  "free h p =
     (case p of
        None \<Rightarrow> Some h
      | Some a \<Rightarrow>
          (case cells h a of
             None \<Rightarrow> None
           | Some n \<Rightarrow> Some (h\<lparr>cells := (cells h)(a := None)\<rparr>)))"

definition deref :: "heap \<Rightarrow> ptr \<Rightarrow> sl_node option" where
  "deref h p = (case p of None \<Rightarrow> None | Some a \<Rightarrow> cells h a)"

definition update :: "heap \<Rightarrow> ptr \<Rightarrow> (sl_node \<Rightarrow> sl_node) \<Rightarrow> heap option" where
  "update h p f =
     (case p of
        None \<Rightarrow> None
      | Some a \<Rightarrow>
          (case cells h a of
             None \<Rightarrow> None
           | Some n \<Rightarrow> Some (h\<lparr>cells := (cells h)(a \<mapsto> f n)\<rparr>)))"

section \<open>The container\<close>

record skip_list =
  first_node :: ptr
  gt_func :: "payload \<Rightarrow> payload \<Rightarrow> bool"
  sl_size :: int

section \<open>Private functions\<close>

text \<open>\<open>_coin_flip\<close>: \<open>rand() % 2\<close>, where \<open>r\<close> is what \<open>rand()\<close> returned.\<close>

definition coin_flip :: "nat \<Rightarrow> nat" where
  "coin_flip r = r mod 2"

text \<open>The \<open>while\<close> loop of \<open>_find_previous\<close>.\<close>

partial_function (option) find_previous_scan ::
  "(payload \<Rightarrow> payload \<Rightarrow> bool) \<Rightarrow> heap \<Rightarrow> ptr \<Rightarrow> payload \<Rightarrow> ptr option" where
  "find_previous_scan gt h temp_node d =
     do {
       t \<leftarrow> deref h temp_node;
       case next_node t of
         None \<Rightarrow> Some temp_node
       | Some nx \<Rightarrow>
           do {
             n \<leftarrow> cells h nx;
             if gt d (data n) then find_previous_scan gt h (Some nx) d
             else Some temp_node
           }
     }"

partial_function (option) find_previous ::
  "(payload \<Rightarrow> payload \<Rightarrow> bool) \<Rightarrow> heap \<Rightarrow> ptr \<Rightarrow> payload \<Rightarrow> ptr option" where
  "find_previous gt h current_node d =
     do {
       temp_node \<leftarrow> find_previous_scan gt h current_node d;
       t \<leftarrow> deref h temp_node;
       if next_layer t = None then Some temp_node
       else find_previous gt h (next_layer t) d
     }"

text \<open>
  \<open>_delete_node\<close>: every statement reads the fields it names from the store as it is
  at that statement; \<open>temp_prev_node\<close> is the one local that is read once.
\<close>

partial_function (option) delete_node :: "heap \<Rightarrow> ptr \<Rightarrow> heap option" where
  "delete_node h del_sl_node =
     (case del_sl_node of
        None \<Rightarrow> Some h
      | Some a \<Rightarrow>
          do {
            d \<leftarrow> cells h a;
            h1 \<leftarrow> delete_node h (prev_layer d);
            d1 \<leftarrow> cells h1 a;
            let temp_prev_node = prev_node d1;
            h2 \<leftarrow> update h1 temp_prev_node (\<lambda>n. n\<lparr>next_node := next_node d1\<rparr>);
            d2 \<leftarrow> cells h2 a;
            h3 \<leftarrow> (case next_node d2 of
                     None \<Rightarrow> Some h2
                   | Some nx \<Rightarrow> update h2 (Some nx) (\<lambda>n. n\<lparr>prev_node := temp_prev_node\<rparr>));
            free h3 (Some a)
          })"

text \<open>
  The \<open>while\<close> loop of \<open>_insert_node\<close> (with its \<open>break\<close>): it walks left from
  \<open>prev_node\<close> to the first node that has a node above it; when it reaches a header
  that has none, it pushes a new header under that header.
\<close>

partial_function (option) insert_node_climb :: "heap \<Rightarrow> ptr \<Rightarrow> (heap \<times> ptr) option" where
  "insert_node_climb h temp_node =
     do {
       t \<leftarrow> deref h temp_node;
       if prev_layer t \<noteq> None then Some (h, temp_node)
       else if prev_node t = None then
         do {
           let (new_layer, h1) =
             malloc h \<lparr>prev_node = None, next_node = next_node t, prev_layer = temp_node,
                       next_layer = next_layer t, data = 0\<rparr>;
           t1 \<leftarrow> deref h1 temp_node;
           h2 \<leftarrow> (case next_node t1 of
                    None \<Rightarrow> Some h1
                  | Some nx \<Rightarrow> update h1 (Some nx) (\<lambda>n. n\<lparr>prev_node := Some new_layer\<rparr>));
           t2 \<leftarrow> deref h2 temp_node;
           h3 \<leftarrow> (case next_layer t2 of
                    None \<Rightarrow> Some h2
                  | Some nl \<Rightarrow> update h2 (Some nl) (\<lambda>n. n\<lparr>prev_layer := Some new_layer\<rparr>));
           h4 \<leftarrow> update h3 temp_node (\<lambda>n. n\<lparr>next_node := None\<rparr>);
           h5 \<leftarrow> update h4 temp_node (\<lambda>n. n\<lparr>next_layer := Some new_layer\<rparr>);
           Some (h5, Some new_layer)
         }
       else insert_node_climb h (prev_node t)
     }"

text \<open>
  \<open>_insert_node\<close>. The list \<open>rs\<close> holds the values the coming calls of \<open>rand()\<close>
  return; each call of \<open>_insert_node\<close> takes one for its coin flip. The result is the
  store, the values of \<open>rand()\<close> not yet used, and the new node.
\<close>

fun insert_node ::
  "heap \<Rightarrow> nat list \<Rightarrow> ptr \<Rightarrow> ptr \<Rightarrow> payload \<Rightarrow> (heap \<times> nat list \<times> ptr) option" where
  "insert_node h [] prev_nd next_lr d = None"
| "insert_node h (r # rs) prev_nd next_lr d =
     do {
       p \<leftarrow> deref h prev_nd;
       let (new_node, h1) =
         malloc h \<lparr>prev_node = prev_nd, next_node = next_node p, prev_layer = None,
                   next_layer = next_lr, data = d\<rparr>;
       h2 \<leftarrow> update h1 prev_nd (\<lambda>n. n\<lparr>next_node := Some new_node\<rparr>);
       nn \<leftarrow> cells h2 new_node;
       h3 \<leftarrow> (case next_node nn of
                None \<Rightarrow> Some h2
              | Some nx \<Rightarrow> update h2 (Some nx) (\<lambda>n. n\<lparr>prev_node := Some new_node\<rparr>));
       if coin_flip r \<noteq> 0 then
         do {
           (h4, temp_node) \<leftarrow> insert_node_climb h3 prev_nd;
           t \<leftarrow> deref h4 temp_node;
           (h5, rs', up) \<leftarrow> insert_node h4 rs (prev_layer t) (Some new_node) d;
           h6 \<leftarrow> update h5 (Some new_node) (\<lambda>n. n\<lparr>prev_layer := up\<rparr>);
           Some (h6, rs', Some new_node)
         }
       else Some (h3, rs, Some new_node)
     }"

partial_function (option) reduce_height :: "heap \<Rightarrow> ptr \<Rightarrow> (heap \<times> ptr) option" where
  "reduce_height h head_node =
     do {
       hn \<leftarrow> deref h head_node;
       if next_layer hn = None \<or> next_node hn \<noteq> None then Some (h, head_node)
       else
         do {
           let temp_next_layer = next_layer hn;
           h1 \<leftarrow> free h head_node;
           h2 \<leftarrow> update h1 temp_next_layer (\<lambda>n. n\<lparr>prev_layer := None\<rparr>);
           reduce_height h2 temp_next_layer
         }
     }"

partial_function (option) delete_skip_list :: "heap \<Rightarrow> ptr \<Rightarrow> heap option" where
  "delete_skip_list h current_node =
     (case current_node of
        None \<Rightarrow> Some h
      | Some a \<Rightarrow>
          do {
            c \<leftarrow> cells h a;
            h1 \<leftarrow> delete_skip_list h (next_layer c);
            c1 \<leftarrow> cells h1 a;
            h2 \<leftarrow> delete_skip_list h1 (next_node c1);
            c2 \<leftarrow> cells h2 a;
            h3 \<leftarrow> (case prev_layer c2 of
                     None \<Rightarrow> Some h2
                   | Some u \<Rightarrow> update h2 (Some u) (\<lambda>n. n\<lparr>next_layer := None\<rparr>));
            free h3 (Some a)
          })"

declare find_previous_scan.simps [code] find_previous.simps [code] delete_node.simps [code]
  insert_node_climb.simps [code] reduce_height.simps [code] delete_skip_list.simps [code]

section \<open>Public functions\<close>

text \<open>
  The container is passed and returned as a value. \<open>_size\<close> is a C \<open>int\<close>; the model
  counts in the integers (the count stays far from \<open>INT_MAX\<close>, where \<open>++\<close> would be
  undefined). \<open>srand\<close> has no part in the model: the values of \<open>rand()\<close> are an argument
  of \<open>skip_list_insert\<close>.
\<close>

definition skip_list_create :: "heap \<Rightarrow> (payload \<Rightarrow> payload \<Rightarrow> bool) \<Rightarrow> heap \<times> skip_list" where
  "skip_list_create h gt =
     (let (fn, h1) =
        malloc h \<lparr>prev_node = None, next_node = None, prev_layer = None,
                  next_layer = None, data = 0\<rparr>
      in (h1, \<lparr>first_node = Some fn, gt_func = gt, sl_size = 0\<rparr>))"

definition skip_list_destroy :: "heap \<Rightarrow> skip_list \<Rightarrow> (heap \<times> int) option" where
  "skip_list_destroy h del_skip_list =
     do {
       h1 \<leftarrow> delete_skip_list h (first_node del_skip_list);
       Some (h1, 0)
     }"

definition skip_list_size :: "skip_list \<Rightarrow> int" where
  "skip_list_size sl = sl_size sl"

definition skip_list_contains :: "heap \<Rightarrow> skip_list \<Rightarrow> payload \<Rightarrow> int option" where
  "skip_list_contains h sl d =
     do {
       prev_nd \<leftarrow> find_previous (gt_func sl) h (first_node sl) d;
       p \<leftarrow> deref h prev_nd;
       case next_node p of
         None \<Rightarrow> Some 0
       | Some nx \<Rightarrow>
           do {
             n \<leftarrow> cells h nx;
             Some (if data n = d then 1 else 0)
           }
     }"

definition skip_list_remove ::
  "heap \<Rightarrow> skip_list \<Rightarrow> payload \<Rightarrow> (heap \<times> skip_list \<times> int) option" where
  "skip_list_remove h sl d =
     do {
       prev_nd \<leftarrow> find_previous (gt_func sl) h (first_node sl) d;
       p \<leftarrow> deref h prev_nd;
       case next_node p of
         None \<Rightarrow> Some (h, sl, 0)
       | Some nx \<Rightarrow>
           do {
             n \<leftarrow> cells h nx;
             if data n \<noteq> d then Some (h, sl, 0)
             else
               do {
                 h1 \<leftarrow> delete_node h (Some nx);
                 (h2, fn) \<leftarrow> reduce_height h1 (first_node sl);
                 Some (h2, sl\<lparr>first_node := fn, sl_size := sl_size sl - 1\<rparr>, 1)
               }
           }
     }"

definition skip_list_insert ::
  "heap \<Rightarrow> nat list \<Rightarrow> skip_list \<Rightarrow> payload \<Rightarrow> (heap \<times> nat list \<times> skip_list \<times> int) option" where
  "skip_list_insert h rs sl d =
     do {
       prev_nd \<leftarrow> find_previous (gt_func sl) h (first_node sl) d;
       p \<leftarrow> deref h prev_nd;
       dup \<leftarrow> (case next_node p of
                 None \<Rightarrow> Some False
               | Some nx \<Rightarrow> do { n \<leftarrow> cells h nx; Some (data n = d) });
       if dup then Some (h, rs, sl, 0)
       else
         do {
           (h1, rs', nn) \<leftarrow> insert_node h rs prev_nd None d;
           Some (h1, rs', sl\<lparr>sl_size := sl_size sl + 1\<rparr>, 1)
         }
     }"

section \<open>The store seen field by field\<close>

text \<open>
  A cell is live when it is allocated. \<open>fld f h a\<close> is the field \<open>f\<close> of the node at
  \<open>a\<close>, when that cell is live. \<open>upd\<close>, \<open>del\<close> and \<open>new\<close> are what \<open>update\<close>,
  \<open>free\<close> and \<open>malloc\<close> do to the store when they succeed.
\<close>

definition live :: "heap \<Rightarrow> addr \<Rightarrow> bool" where
  "live h a = (cells h a \<noteq> None)"

definition fld :: "(sl_node \<Rightarrow> 'a) \<Rightarrow> heap \<Rightarrow> addr \<Rightarrow> 'a option" where
  "fld f h a = map_option f (cells h a)"

definition upd :: "heap \<Rightarrow> addr \<Rightarrow> (sl_node \<Rightarrow> sl_node) \<Rightarrow> heap" where
  "upd h a g = h\<lparr>cells := (cells h)(a := map_option g (cells h a))\<rparr>"

definition del :: "heap \<Rightarrow> addr \<Rightarrow> heap" where
  "del h a = h\<lparr>cells := (cells h)(a := None)\<rparr>"

definition new :: "heap \<Rightarrow> sl_node \<Rightarrow> heap" where
  "new h n = h\<lparr>cells := (cells h)(brk h \<mapsto> n), brk := Suc (brk h)\<rparr>"

section \<open>The shape of a skip list\<close>

text \<open>
  Chains of links. \<open>chainF F as q\<close>: the field \<open>F\<close> of each node of \<open>as\<close> points to
  the next node of \<open>as\<close>, and the field of the last one is \<open>q\<close>. \<open>chainB B p as\<close>:
  the field \<open>B\<close> of each node points to the node before it, and the field of the first
  one is \<open>p\<close>. \<open>hdo as q\<close> is the first node of \<open>as\<close>, or \<open>q\<close>; \<open>lasto p as\<close>
  is the last node of \<open>as\<close>, or \<open>p\<close>.
\<close>

fun hdo :: "addr list \<Rightarrow> ptr \<Rightarrow> ptr" where
  "hdo [] q = q"
| "hdo (b # bs) q = Some b"

fun lasto :: "ptr \<Rightarrow> addr list \<Rightarrow> ptr" where
  "lasto p [] = p"
| "lasto p (a # as) = lasto (Some a) as"

fun chainF :: "(addr \<Rightarrow> ptr option) \<Rightarrow> addr list \<Rightarrow> ptr \<Rightarrow> bool" where
  "chainF F [] q = True"
| "chainF F (a # as) q = (F a = Some (hdo as q) \<and> chainF F as q)"

fun chainB :: "(addr \<Rightarrow> ptr option) \<Rightarrow> ptr \<Rightarrow> addr list \<Rightarrow> bool" where
  "chainB B p [] = True"
| "chainB B p (a # as) = (B a = Some p \<and> chainB B (Some a) as)"

text \<open>
  A column is a payload with the nodes that hold it, from level 0 upwards. A skip list is
  described by its headers \<open>hs\<close>, from level 0 upwards (the last one is the topmost
  header), and its columns \<open>cs\<close>, from left to right. The headers form a column of
  their own with the payload \<open>NULL\<close>, which is 0. \<open>lvl k cs\<close> is level \<open>k\<close>, from left
  to right: the node at height \<open>k\<close> of every column that is high enough.
\<close>

type_synonym column = "payload \<times> addr list"

definition lvl :: "nat \<Rightarrow> column list \<Rightarrow> addr list" where
  "lvl k cs = map (\<lambda>c. snd c ! k) (filter (\<lambda>c. k < length (snd c)) cs)"

definition addrs :: "column list \<Rightarrow> addr list" where
  "addrs cs = concat (map snd cs)"

definition dat :: "heap \<Rightarrow> addr \<Rightarrow> payload" where
  "dat h a = (case cells h a of None \<Rightarrow> 0 | Some n \<Rightarrow> data n)"

text \<open>
  \<open>horiz\<close>: each of the first \<open>n\<close> levels is a doubly linked list through
  \<open>_prev_node\<close> and \<open>_next_node\<close>. \<open>downs\<close>: a column is linked downwards through
  \<open>_next_layer\<close> and each of its nodes holds its payload. \<open>ups\<close>: a column is
  linked upwards through \<open>_prev_layer\<close>. A store holds a well-formed skip list when
  there is a header, no column is empty or higher than the headers, no node occurs twice,
  every node was allocated, and all the links are as described.
\<close>

definition horiz :: "heap \<Rightarrow> nat \<Rightarrow> column list \<Rightarrow> bool" where
  "horiz h n full =
     (\<forall>k<n. chainB (fld prev_node h) None (lvl k full) \<and> chainF (fld next_node h) (lvl k full) None)"

definition downs :: "heap \<Rightarrow> column \<Rightarrow> bool" where
  "downs h c =
     (chainB (fld next_layer h) None (snd c) \<and> (\<forall>a\<in>set (snd c). fld data h a = Some (fst c)))"

definition ups :: "heap \<Rightarrow> column \<Rightarrow> bool" where
  "ups h c = chainF (fld prev_layer h) (snd c) None"

definition well_formed :: "heap \<Rightarrow> addr list \<Rightarrow> column list \<Rightarrow> bool" where
  "well_formed h hs cs =
     (hs \<noteq> [] \<and>
      (\<forall>c\<in>set cs. snd c \<noteq> [] \<and> length (snd c) \<le> length hs) \<and>
      distinct (hs @ addrs cs) \<and>
      (\<forall>a\<in>set (hs @ addrs cs). a < brk h) \<and>
      horiz h (length hs) ((0, hs) # cs) \<and>
      (\<forall>c\<in>set ((0, hs) # cs). downs h c \<and> ups h c))"

definition wf_sl :: "heap \<Rightarrow> skip_list \<Rightarrow> addr list \<Rightarrow> column list \<Rightarrow> bool" where
  "wf_sl h sl hs cs = (well_formed h hs cs \<and> first_node sl = Some (last hs))"

text \<open>
  \<open>stop\<close>: the scan of a level stops at \<open>r\<close>. \<open>hit d B\<close>: the first of the columns
  \<open>B\<close> holds the pointer \<open>d\<close> itself. \<open>sorted_sl\<close>: the payloads of the columns are
  strictly increasing, each one \<open>gt\<close> all those before it.
\<close>

definition stop :: "heap \<Rightarrow> (payload \<Rightarrow> payload \<Rightarrow> bool) \<Rightarrow> payload \<Rightarrow> addr \<Rightarrow> bool" where
  "stop h gt d r =
     (fld next_node h r = Some None \<or>
      (\<exists>b. fld next_node h r = Some (Some b) \<and> \<not> gt d (dat h b)))"

definition hit :: "payload \<Rightarrow> column list \<Rightarrow> bool" where
  "hit d B = (case B of [] \<Rightarrow> False | b # _ \<Rightarrow> fst b = d)"

definition sorted_sl :: "(payload \<Rightarrow> payload \<Rightarrow> bool) \<Rightarrow> column list \<Rightarrow> bool" where
  "sorted_sl gt cs = sorted_wrt (\<lambda>x y. gt y x) (map fst cs)"

section \<open>Comparisons and stores to run the code on\<close>

text \<open>
  \<open>gt_nat\<close> compares the payloads as numbers, as \<open>fifo_gt\<close> does. \<open>gt_half\<close>
  compares their halves, so that \<open>2 * n\<close> and \<open>2 * n + 1\<close> are two payloads that are
  order-equal: it stands for a comparison of what two different pointers point to.
\<close>

definition gt_nat :: "payload \<Rightarrow> payload \<Rightarrow> bool" where
  "gt_nat a b = (b < a)"

definition gt_half :: "payload \<Rightarrow> payload \<Rightarrow> bool" where
  "gt_half a b = (b div 2 < a div 2)"

definition node :: "ptr \<Rightarrow> ptr \<Rightarrow> ptr \<Rightarrow> ptr \<Rightarrow> payload \<Rightarrow> sl_node" where
  "node pn nn pl nl d = \<lparr>prev_node = pn, next_node = nn, prev_layer = pl, next_layer = nl, data = d\<rparr>"

definition heap_of :: "sl_node list \<Rightarrow> heap" where
  "heap_of ns = \<lparr>cells = (\<lambda>a. if a < length ns then Some (ns ! a) else None), brk = length ns\<rparr>"

text \<open>
  A skip list of three levels that stores 3, 4 and 5, in columns of height 2, 1 and 3.
\<close>

definition ex_heap :: heap where
  "ex_heap = heap_of
     [node None (Some 5) None (Some 4) 0,
      node (Some 8) None (Some 3) None 5,
      node None (Some 6) (Some 4) None 0,
      node (Some 7) None (Some 5) (Some 1) 5,
      node None (Some 7) (Some 0) (Some 2) 0,
      node (Some 0) None None (Some 3) 5,
      node (Some 2) (Some 8) (Some 7) None 3,
      node (Some 4) (Some 3) None (Some 6) 3,
      node (Some 6) (Some 1) None None 4]"

definition ex_sl :: skip_list where
  "ex_sl = \<lparr>first_node = Some 0, gt_func = gt_nat, sl_size = 3\<rparr>"

definition ex_hs :: "addr list" where "ex_hs = [2, 4, 0]"
definition ex_cs :: "column list" where "ex_cs = [(3, [6, 7]), (4, [8]), (5, [1, 3, 5])]"

text \<open>
  The list that stores 2 alone, under \<open>gt_half\<close>; and the empty store.
\<close>

definition half_heap :: heap where
  "half_heap = heap_of [node None (Some 1) None None 0, node (Some 0) None None None 2]"

definition half_sl :: skip_list where
  "half_sl = \<lparr>first_node = Some 0, gt_func = gt_half, sl_size = 1\<rparr>"

definition heap0 :: heap where
  "heap0 = \<lparr>cells = (\<lambda>a. None), brk = 0\<rparr>"

section \<open>The store during teardown\<close>

text \<open>
  \<open>below k full\<close> are the nodes of the levels under \<open>k\<close>. \<open>swept g as\<close> is the
  store \<open>g\<close> once \<open>_delete_skip_list\<close> has freed the nodes \<open>as\<close> and cleared the
  \<open>_next_layer\<close> of the nodes above them; \<open>stripped h full k\<close> is the store once the
  levels under \<open>k\<close> are freed.
\<close>

definition below :: "nat \<Rightarrow> column list \<Rightarrow> addr list" where
  "below k full = concat (map (\<lambda>j. lvl j full) [0..<k])"

definition swept :: "heap \<Rightarrow> addr list \<Rightarrow> heap" where
  "swept g as =
     g\<lparr>cells := \<lambda>x. if x \<in> set as then None
                     else if \<exists>a\<in>set as. fld prev_layer g a = Some (Some x)
                       then map_option (next_layer_update (\<lambda>_. None)) (cells g x)
                       else cells g x\<rparr>"

definition stripped :: "heap \<Rightarrow> column list \<Rightarrow> nat \<Rightarrow> heap" where
  "stripped h full k =
     h\<lparr>cells := \<lambda>x. if x \<in> set (below k full) then None
                     else if x \<in> set (lvl k full)
                       then map_option (next_layer_update (\<lambda>_. None)) (cells h x)
                       else cells h x\<rparr>"

section \<open>A column under construction\<close>

text \<open>
  \<open>wfx h hs A c B\<close>: the skip list with the columns \<open>A\<close>, \<open>c\<close>, \<open>B\<close> is well-formed
  but for the column \<open>c\<close>, which may be empty and whose upward links are not yet, or
  no more, in place. This is the state between two steps of \<open>_insert_node\<close> and of
  \<open>_delete_node\<close>.
\<close>

definition wfx :: "heap \<Rightarrow> addr list \<Rightarrow> column list \<Rightarrow> column \<Rightarrow> column list \<Rightarrow> bool" where
  "wfx h hs A c B =
     (hs \<noteq> [] \<and>
      (\<forall>x\<in>set (A @ B). snd x \<noteq> [] \<and> length (snd x) \<le> length hs) \<and>
      length (snd c) \<le> length hs \<and>
      distinct (hs @ addrs (A @ c # B)) \<and>
      (\<forall>a\<in>set (hs @ addrs (A @ c # B)). a < brk h) \<and>
      horiz h (length hs) ((0, hs) # A @ c # B) \<and>
      (\<forall>x\<in>set ((0, hs) # A @ B). downs h x \<and> ups h x) \<and>
      downs h c)"

text \<open>
  What \<open>_reduce_height\<close> establishes, read from the store: the topmost header has
  no level below it or has a forward neighbour; and the topmost header has no neighbour
  at all.
\<close>

definition top_nonempty_or_single :: "heap \<Rightarrow> skip_list \<Rightarrow> bool" where
  "top_nonempty_or_single h sl =
     (case deref h (first_node sl) of
        None \<Rightarrow> False
      | Some n \<Rightarrow> next_layer n = None \<or> next_node n \<noteq> None)"

definition single_empty_level :: "heap \<Rightarrow> skip_list \<Rightarrow> bool" where
  "single_empty_level h sl =
     (case deref h (first_node sl) of
        None \<Rightarrow> False
      | Some n \<Rightarrow> next_layer n = None \<and> prev_layer n = None \<and> next_node n = None \<and> prev_node n = None)"

text \<open>
  The list of two levels that stores 7 alone, in a column of height 2.
\<close>

definition tall_heap :: heap where
  "tall_heap = heap_of
     [node None (Some 3) None (Some 2) 0,
      node (Some 2) None (Some 3) None 7,
      node None (Some 1) (Some 0) None 0,
      node (Some 0) None None (Some 1) 7]"

definition tall_sl :: skip_list where
  "tall_sl = \<lparr>first_node = Some 0, gt_func = gt_nat, sl_size = 1\<rparr>"

section \<open>Observations\<close>

text \<open>
  The number of heads before the first tails, in the values that \<open>rand()\<close> returns.
\<close>

definition leading_heads :: "nat list \<Rightarrow> nat" where
  "leading_heads rs = length (takeWhile (\<lambda>r. coin_flip r \<noteq> 0) rs)"

text \<open>
  Walks over the structure, following the links that are in the store. \<open>row h p\<close>
  follows \<open>_next_node\<close> from \<open>p\<close> to the end of a level. \<open>layers h p\<close> follows
  \<open>_next_layer\<close> from the header \<open>p\<close> down to level 0, and returns for each level the
  nodes after its header: the levels from the top down. \<open>level0\<close> reads the payloads
  of the last of them.
\<close>

partial_function (option) row :: "heap \<Rightarrow> ptr \<Rightarrow> addr list option" where
  "row h p =
     (case p of
        None \<Rightarrow> Some []
      | Some a \<Rightarrow>
          do {
            n \<leftarrow> cells h a;
            as \<leftarrow> row h (next_node n);
            Some (a # as)
          })"

partial_function (option) layers :: "heap \<Rightarrow> ptr \<Rightarrow> addr list list option" where
  "layers h p =
     (case p of
        None \<Rightarrow> Some []
      | Some a \<Rightarrow>
          do {
            n \<leftarrow> cells h a;
            r \<leftarrow> row h (next_node n);
            ls \<leftarrow> layers h (next_layer n);
            Some (r # ls)
          })"

declare row.simps [code] layers.simps [code]

definition level0 :: "heap \<Rightarrow> skip_list \<Rightarrow> payload list option" where
  "level0 h sl =
     do {
       ls \<leftarrow> layers h (first_node sl);
       if ls = [] then None else Some (map (dat h) (last ls))
     }"

text \<open>
  A sequence of payloads is strictly increasing under \<open>gt\<close> when each one is \<open>gt\<close>
  all those before it. \<open>linked_down h lower a\<close>: the \<open>_next_layer\<close> of \<open>a\<close> is a node
  of \<open>lower\<close> that holds the payload of \<open>a\<close>. \<open>stacked h ls\<close>: of every two adjacent
  levels of \<open>ls\<close>, the payloads of the upper one are a subsequence of those of the lower
  one, and every node of the upper one is linked down into the lower one.
\<close>

definition increasing :: "(payload \<Rightarrow> payload \<Rightarrow> bool) \<Rightarrow> payload list \<Rightarrow> bool" where
  "increasing gt ds = sorted_wrt (\<lambda>x y. gt y x) ds"

definition linked_down :: "heap \<Rightarrow> addr list \<Rightarrow> addr \<Rightarrow> bool" where
  "linked_down h lower a =
     (case cells h a of
        None \<Rightarrow> False
      | Some n \<Rightarrow>
          (case next_layer n of
             None \<Rightarrow> False
           | Some b \<Rightarrow> b \<in> set lower \<and> dat h b = data n))"

fun stacked :: "heap \<Rightarrow> addr list list \<Rightarrow> bool" where
  "stacked h (u # l # ls) =
     (subseq (map (dat h) u) (map (dat h) l) \<and> list_all (linked_down h l) u \<and> stacked h (l # ls))"
| "stacked h ls = True"

text \<open>
  The states that a program reaches with one skip list: \<open>skip_list_create\<close> on any store,
  then any calls of \<open>skip_list_insert\<close> and \<open>skip_list_remove\<close> that return, with any
  payloads and any values of \<open>rand()\<close>.
\<close>

inductive reachable :: "(payload \<Rightarrow> payload \<Rightarrow> bool) \<Rightarrow> heap \<Rightarrow> skip_list \<Rightarrow> bool"
  for gt :: "payload \<Rightarrow> payload \<Rightarrow> bool" where
  created: "skip_list_create h0 gt = (h, sl) \<Longrightarrow> reachable gt h sl"
| inserted: "reachable gt h sl \<Longrightarrow> skip_list_insert h rs sl d = Some (h', rs', sl', r) \<Longrightarrow>
     reachable gt h' sl'"
| removed: "reachable gt h sl \<Longrightarrow> skip_list_remove h sl d = Some (h', sl', r) \<Longrightarrow>
     reachable gt h' sl'"

text \<open>
  The nodes that can be reached from \<open>p\<close> by following \<open>_next_node\<close> and
  \<open>_next_layer\<close>, the two links that \<open>_delete_skip_list\<close> follows.
\<close>

inductive_set reach :: "heap \<Rightarrow> ptr \<Rightarrow> addr set"
  for h :: heap and p :: ptr where
  start: "p = Some a \<Longrightarrow> live h a \<Longrightarrow> a \<in> reach h p"
| right: "a \<in> reach h p \<Longrightarrow> fld next_node h a = Some (Some b) \<Longrightarrow> b \<in> reach h p"
| down: "a \<in> reach h p \<Longrightarrow> fld next_layer h a = Some (Some b) \<Longrightarrow> b \<in> reach h p"

text \<open>
  The stores that the code builds from the empty store: the new list; the list with 7 in a
  column of height 2, then 3 in a column of height 1; and under \<open>gt_half\<close> the list with 2,
  then 3.
\<close>

definition one_heap :: heap where
  "one_heap = heap_of [node None None None None 0]"

definition fresh_sl :: "(payload \<Rightarrow> payload \<Rightarrow> bool) \<Rightarrow> skip_list" where
  "fresh_sl gt = \<lparr>first_node = Some 0, gt_func = gt, sl_size = 0\<rparr>"

definition tall2_heap :: heap where
  "tall2_heap = heap_of
     [node None (Some 3) None (Some 2) 0,
      node (Some 4) None (Some 3) None 7,
      node None (Some 4) (Some 0) None 0,
      node (Some 0) None None (Some 1) 7,
      node (Some 2) (Some 1) None None 3]"

definition tall2_sl :: skip_list where
  "tall2_sl = \<lparr>first_node = Some 0, gt_func = gt_nat, sl_size = 2\<rparr>"

definition half2_heap :: heap where
  "half2_heap = heap_of
     [node None (Some 2) None None 0,
      node (Some 2) None None None 2,
      node (Some 0) (Some 1) None None 3]"

definition half2_sl :: skip_list where
  "half2_sl = \<lparr>first_node = Some 0, gt_func = gt_half, sl_size = 2\<rparr>"

text \<open>
  \<open>untied gt d ds\<close>: none of the payloads \<open>ds\<close> is a different pointer that is
  order-equal to \<open>d\<close>. The states of \<open>reachable_untied\<close> are those reached by calls
  in which no \<open>skip_list_insert\<close> is passed a pointer that is order-equal to a different
  pointer stored at that moment, the stored pointers being those that the walk along
  level 0 reads; the calls of \<open>skip_list_remove\<close> are any.
\<close>

definition untied :: "(payload \<Rightarrow> payload \<Rightarrow> bool) \<Rightarrow> payload \<Rightarrow> payload list \<Rightarrow> bool" where
  "untied gt d ds = list_all (\<lambda>x. x = d \<or> gt d x \<or> gt x d) ds"

inductive reachable_untied :: "(payload \<Rightarrow> payload \<Rightarrow> bool) \<Rightarrow> heap \<Rightarrow> skip_list \<Rightarrow> bool"
  for gt :: "payload \<Rightarrow> payload \<Rightarrow> bool" where
  created: "skip_list_create h0 gt = (h, sl) \<Longrightarrow> reachable_untied gt h sl"
| inserted: "reachable_untied gt h sl \<Longrightarrow> level0 h sl = Some ds \<Longrightarrow> untied gt d ds \<Longrightarrow>
     skip_list_insert h rs sl d = Some (h', rs', sl', r) \<Longrightarrow> reachable_untied gt h' sl'"
| removed: "reachable_untied gt h sl \<Longrightarrow> skip_list_remove h sl d = Some (h', sl', r) \<Longrightarrow>
     reachable_untied gt h' sl'"

text \<open>
  Under \<open>gt_half\<close>, the list with 2, then 5.
\<close>

definition half5_heap :: heap where
  "half5_heap = heap_of
     [node None (Some 1) None None 0,
      node (Some 0) (Some 2) None None 2,
      node (Some 1) None None None 5]"

definition half5_sl :: skip_list where
  "half5_sl = \<lparr>first_node = Some 0, gt_func = gt_half, sl_size = 2\<rparr>"

section \<open>Field views of the store\<close>

lemma malloc_new: "malloc h n = (brk h, new h n)"
  by (simp add: malloc_def new_def)

lemma update_live: "live h a \<Longrightarrow> update h (Some a) g = Some (upd h a g)"
  by (auto simp: live_def update_def upd_def)

lemma free_live: "live h a \<Longrightarrow> free h (Some a) = Some (del h a)"
  by (auto simp: live_def free_def del_def)

lemma deref_Some: "deref h (Some a) = cells h a"
  by (simp add: deref_def)

lemma deref_None: "deref h None = None"
  by (simp add: deref_def)

lemma fld_live: "fld f h a = Some v \<Longrightarrow> live h a"
  by (auto simp: fld_def live_def)

lemma fld_cells: "cells h a = Some n \<Longrightarrow> fld f h a = Some (f n)"
  by (simp add: fld_def)

lemma live_cells: "live h a \<Longrightarrow> \<exists>n. cells h a = Some n"
  by (simp add: live_def)

lemma live_fld: "live h a \<Longrightarrow> \<exists>v. fld f h a = Some v"
  by (auto simp: live_def fld_def)

lemma brk_upd [simp]: "brk (upd h a g) = brk h"
  by (simp add: upd_def)

lemma brk_del [simp]: "brk (del h a) = brk h"
  by (simp add: del_def)

lemma brk_new [simp]: "brk (new h n) = Suc (brk h)"
  by (simp add: new_def)

lemma live_upd [simp]: "live (upd h a g) x = live h x"
  by (simp add: live_def upd_def)

lemma live_del [simp]: "live (del h a) x = (x \<noteq> a \<and> live h x)"
  by (simp add: live_def del_def)

lemma live_new [simp]: "live (new h n) x = (x = brk h \<or> live h x)"
  by (simp add: live_def new_def)

lemma fld_new [simp]: "fld f (new h n) x = (if x = brk h then Some (f n) else fld f h x)"
  by (simp add: fld_def new_def)

lemma fld_del [simp]: "fld f (del h a) x = (if x = a then None else fld f h x)"
  by (simp add: fld_def del_def)

lemma fld_upd_prev_node [simp]:
  "fld prev_node (upd h a (prev_node_update u)) x =
     (if x = a then map_option u (fld prev_node h a) else fld prev_node h x)"
  "fld next_node (upd h a (prev_node_update u)) = fld next_node h"
  "fld prev_layer (upd h a (prev_node_update u)) = fld prev_layer h"
  "fld next_layer (upd h a (prev_node_update u)) = fld next_layer h"
  "fld data (upd h a (prev_node_update u)) = fld data h"
  by (auto simp: fld_def upd_def option.map_comp o_def)

lemma fld_upd_next_node [simp]:
  "fld next_node (upd h a (next_node_update u)) x =
     (if x = a then map_option u (fld next_node h a) else fld next_node h x)"
  "fld prev_node (upd h a (next_node_update u)) = fld prev_node h"
  "fld prev_layer (upd h a (next_node_update u)) = fld prev_layer h"
  "fld next_layer (upd h a (next_node_update u)) = fld next_layer h"
  "fld data (upd h a (next_node_update u)) = fld data h"
  by (auto simp: fld_def upd_def option.map_comp o_def)

lemma fld_upd_prev_layer [simp]:
  "fld prev_layer (upd h a (prev_layer_update u)) x =
     (if x = a then map_option u (fld prev_layer h a) else fld prev_layer h x)"
  "fld prev_node (upd h a (prev_layer_update u)) = fld prev_node h"
  "fld next_node (upd h a (prev_layer_update u)) = fld next_node h"
  "fld next_layer (upd h a (prev_layer_update u)) = fld next_layer h"
  "fld data (upd h a (prev_layer_update u)) = fld data h"
  by (auto simp: fld_def upd_def option.map_comp o_def)

lemma fld_upd_next_layer [simp]:
  "fld next_layer (upd h a (next_layer_update u)) x =
     (if x = a then map_option u (fld next_layer h a) else fld next_layer h x)"
  "fld prev_node (upd h a (next_layer_update u)) = fld prev_node h"
  "fld next_node (upd h a (next_layer_update u)) = fld next_node h"
  "fld prev_layer (upd h a (next_layer_update u)) = fld prev_layer h"
  "fld data (upd h a (next_layer_update u)) = fld data h"
  by (auto simp: fld_def upd_def option.map_comp o_def)

section \<open>Chains of links\<close>

lemma hdo_append [simp]: "hdo (xs @ ys) q = hdo xs (hdo ys q)"
  by (cases xs) auto

lemma lasto_append [simp]: "lasto p (xs @ ys) = lasto (lasto p xs) ys"
  by (induction xs arbitrary: p) auto

lemma lasto_last: "xs \<noteq> [] \<Longrightarrow> lasto p xs = Some (last xs)"
  by (induction xs arbitrary: p) auto

lemma hdo_hd: "xs \<noteq> [] \<Longrightarrow> hdo xs q = Some (hd xs)"
  by (cases xs) auto

lemma chainF_append [simp]:
  "chainF F (xs @ ys) q = (chainF F xs (hdo ys q) \<and> chainF F ys q)"
  by (induction xs) auto

lemma chainB_append [simp]:
  "chainB B p (xs @ ys) = (chainB B p xs \<and> chainB B (lasto p xs) ys)"
  by (induction xs arbitrary: p) auto

lemma chainF_cong: "(\<And>a. a \<in> set as \<Longrightarrow> F' a = F a) \<Longrightarrow> chainF F' as q = chainF F as q"
  by (induction as) auto

lemma chainB_cong: "(\<And>a. a \<in> set as \<Longrightarrow> B' a = B a) \<Longrightarrow> chainB B' p as = chainB B p as"
  by (induction as arbitrary: p) auto

lemma chainF_nth:
  "chainF F as q \<Longrightarrow> i < length as \<Longrightarrow>
   F (as ! i) = Some (if Suc i < length as then Some (as ! Suc i) else q)"
proof (induction as arbitrary: i)
  case Nil
  then show ?case by simp
next
  case (Cons a as)
  show ?case
  proof (cases i)
    case 0
    with Cons.prems show ?thesis by (cases as) auto
  next
    case (Suc j)
    with Cons show ?thesis by auto
  qed
qed

lemma chainB_nth:
  "chainB B p as \<Longrightarrow> i < length as \<Longrightarrow>
   B (as ! i) = Some (if i = 0 then p else Some (as ! (i - 1)))"
proof (induction as arbitrary: i p)
  case Nil
  then show ?case by simp
next
  case (Cons a as)
  show ?case
  proof (cases i)
    case 0
    with Cons.prems show ?thesis by auto
  next
    case (Suc j)
    with Cons.prems have "B ((a # as) ! i) = Some (if j = 0 then Some a else Some (as ! (j - 1)))"
      using Cons.IH [of "Some a" j] by auto
    with Suc show ?thesis by (cases j) auto
  qed
qed

lemma chainF_defined: "chainF F as q \<Longrightarrow> a \<in> set as \<Longrightarrow> \<exists>v. F a = Some v"
  by (induction as) auto

section \<open>Columns and levels\<close>

lemma lvl_Nil [simp]: "lvl k [] = []"
  by (simp add: lvl_def)

lemma lvl_Cons: "lvl k (c # cs) = (if k < length (snd c) then snd c ! k # lvl k cs else lvl k cs)"
  by (simp add: lvl_def)

lemma lvl_append [simp]: "lvl k (xs @ ys) = lvl k xs @ lvl k ys"
  by (simp add: lvl_def)

lemma addrs_Nil [simp]: "addrs [] = []"
  by (simp add: addrs_def)

lemma addrs_Cons [simp]: "addrs (c # cs) = snd c @ addrs cs"
  by (simp add: addrs_def)

lemma addrs_append [simp]: "addrs (xs @ ys) = addrs xs @ addrs ys"
  by (simp add: addrs_def)

lemma set_lvl: "a \<in> set (lvl k cs) \<longleftrightarrow> (\<exists>c\<in>set cs. k < length (snd c) \<and> a = snd c ! k)"
  by (auto simp: lvl_def)

lemma set_addrs: "a \<in> set (addrs cs) \<longleftrightarrow> (\<exists>c\<in>set cs. a \<in> set (snd c))"
  by (auto simp: addrs_def)

lemma nth_in_addrs: "c \<in> set cs \<Longrightarrow> k < length (snd c) \<Longrightarrow> snd c ! k \<in> set (addrs cs)"
  unfolding set_addrs using nth_mem by blast

lemma lvl_subset: "a \<in> set (lvl k cs) \<Longrightarrow> a \<in> set (addrs cs)"
  unfolding set_lvl using nth_in_addrs by blast

lemma distinct_lvl: "distinct (addrs cs) \<Longrightarrow> distinct (lvl k cs)"
proof (induction cs)
  case Nil
  then show ?case by simp
next
  case (Cons c cs)
  then have "distinct (lvl k cs)" by simp
  moreover have "k < length (snd c) \<Longrightarrow> snd c ! k \<notin> set (lvl k cs)"
  proof
    assume "k < length (snd c)" "snd c ! k \<in> set (lvl k cs)"
    then have "snd c ! k \<in> set (snd c)" "snd c ! k \<in> set (addrs cs)"
      by (auto dest: lvl_subset)
    with Cons.prems show False by auto
  qed
  ultimately show ?case by (simp add: lvl_Cons)
qed

lemma node_unique:
  "distinct (addrs cs) \<Longrightarrow> c \<in> set cs \<Longrightarrow> c' \<in> set cs \<Longrightarrow> k < length (snd c) \<Longrightarrow>
   l < length (snd c') \<Longrightarrow> snd c ! k = snd c' ! l \<Longrightarrow> c = c' \<and> k = l"
proof (induction cs)
  case Nil
  then show ?case by simp
next
  case (Cons x cs)
  have in_addrs: "\<And>e j. e \<in> set cs \<Longrightarrow> j < length (snd e) \<Longrightarrow> snd e ! j \<in> set (addrs cs)"
    by (rule nth_in_addrs)
  from Cons.prems(1) have dx: "distinct (snd x)" and dcs: "distinct (addrs cs)"
    and disj: "set (snd x) \<inter> set (addrs cs) = {}" by auto
  consider "c = x" "c' = x" | "c = x" "c' \<in> set cs" "c' \<noteq> x" | "c \<in> set cs" "c \<noteq> x" "c' = x"
    | "c \<in> set cs" "c' \<in> set cs"
    using Cons.prems(2,3) by auto
  then show ?case
  proof cases
    case 1
    with Cons.prems dx show ?thesis by (auto simp: nth_eq_iff_index_eq)
  next
    case 2
    with Cons.prems(4,5,6) in_addrs [of c' l] disj have False
      by (metis disjoint_iff nth_mem)
    then show ?thesis ..
  next
    case 3
    with Cons.prems(4,5,6) in_addrs [of c k] disj have False
      by (metis disjoint_iff nth_mem)
    then show ?thesis ..
  next
    case 4
    with Cons.IH [OF dcs] Cons.prems(4,5,6) show ?thesis by blast
  qed
qed

lemma lvl_disjoint:
  "distinct (addrs cs) \<Longrightarrow> a \<in> set (lvl k cs) \<Longrightarrow> a \<in> set (lvl l cs) \<Longrightarrow> k = l"
  by (auto simp: set_lvl dest: node_unique)

section \<open>Well-formed skip lists\<close>

lemma dat_fld: "fld data h a = Some v \<Longrightarrow> dat h a = v"
  by (auto simp: fld_def dat_def)

lemma scan_spec:
  assumes "chainF (fld next_node h) (a # Y) None"
  shows "\<exists>r. find_previous_scan gt h (Some a) d = Some (Some r) \<and> r \<in> set (a # Y) \<and>
             (r = a \<or> gt d (dat h r)) \<and> stop h gt d r"
  using assms
proof (induction Y arbitrary: a)
  case Nil
  then have nn: "fld next_node h a = Some None" by simp
  then obtain n where n: "cells h a = Some n" "next_node n = None"
    by (auto simp: fld_def)
  show ?case
    by (subst find_previous_scan.simps) (simp add: deref_Some n stop_def nn)
next
  case (Cons b Y)
  then have nn: "fld next_node h a = Some (Some b)" and ch: "chainF (fld next_node h) (b # Y) None"
    by simp_all
  from nn obtain n where n: "cells h a = Some n" "next_node n = Some b"
    by (auto simp: fld_def)
  from ch have "live h b" by (auto dest: fld_live)
  then obtain m where m: "cells h b = Some m" by (auto dest: live_cells)
  then have db: "dat h b = data m" by (simp add: dat_def)
  show ?case
  proof (cases "gt d (data m)")
    case True
    from Cons.IH [OF ch] obtain r where r:
      "find_previous_scan gt h (Some b) d = Some (Some r)" "r \<in> set (b # Y)"
      "r = b \<or> gt d (dat h r)" "stop h gt d r" by blast
    have "find_previous_scan gt h (Some a) d = Some (Some r)"
      by (subst find_previous_scan.simps) (simp add: deref_Some n m True r(1))
    moreover have "gt d (dat h r)" using r(3) True db by auto
    ultimately show ?thesis using r by auto
  next
    case False
    have "find_previous_scan gt h (Some a) d = Some (Some a)"
      by (subst find_previous_scan.simps) (simp add: deref_Some n m False)
    moreover have "stop h gt d a" using nn False db by (simp add: stop_def)
    ultimately show ?thesis by auto
  qed
qed

lemma wf_col_len: "well_formed h hs cs \<Longrightarrow> c \<in> set ((0, hs) # cs) \<Longrightarrow> length (snd c) \<le> length hs"
  by (auto simp: well_formed_def)

lemma wf_distinct_full: "well_formed h hs cs \<Longrightarrow> distinct (addrs ((0, hs) # cs))"
  by (simp add: well_formed_def)

lemma wf_data:
  "well_formed h hs cs \<Longrightarrow> c \<in> set ((0, hs) # cs) \<Longrightarrow> k < length (snd c) \<Longrightarrow> dat h (snd c ! k) = fst c"
  unfolding well_formed_def downs_def by (meson dat_fld nth_mem)

lemma wf_down:
  "well_formed h hs cs \<Longrightarrow> c \<in> set ((0, hs) # cs) \<Longrightarrow> k < length (snd c) \<Longrightarrow>
   fld next_layer h (snd c ! k) = Some (if k = 0 then None else Some (snd c ! (k - 1)))"
  unfolding well_formed_def downs_def by (meson chainB_nth)

lemma wf_up:
  "well_formed h hs cs \<Longrightarrow> c \<in> set ((0, hs) # cs) \<Longrightarrow> k < length (snd c) \<Longrightarrow>
   fld prev_layer h (snd c ! k) =
     Some (if Suc k < length (snd c) then Some (snd c ! Suc k) else None)"
  unfolding well_formed_def ups_def by (meson chainF_nth)

lemma wf_horiz:
  "well_formed h hs cs \<Longrightarrow> k < length hs \<Longrightarrow>
   chainB (fld prev_node h) None (lvl k ((0, hs) # cs)) \<and>
   chainF (fld next_node h) (lvl k ((0, hs) # cs)) None"
  by (simp add: well_formed_def horiz_def)

lemma level_step:
  assumes wf: "well_formed h hs cs" and c: "c \<in> set ((0, hs) # cs)" and k: "k < length (snd c)"
  shows "\<exists>c'\<in>set ((0, hs) # cs). k < length (snd c') \<and> (c' = c \<or> gt d (fst c')) \<and>
           find_previous_scan gt h (Some (snd c ! k)) d = Some (Some (snd c' ! k)) \<and>
           stop h gt d (snd c' ! k)"
proof -
  let ?full = "(0, hs) # cs"
  let ?a = "snd c ! k"
  from wf_col_len [OF wf c] k have kh: "k < length hs" by simp
  have "?a \<in> set (lvl k ?full)" using c k unfolding set_lvl by blast
  then obtain X Y where split: "lvl k ?full = X @ ?a # Y" by (auto dest: split_list)
  from wf_horiz [OF wf kh] split have "chainF (fld next_node h) (?a # Y) None" by simp
  from scan_spec [OF this, of gt d] obtain r where r:
    "find_previous_scan gt h (Some ?a) d = Some (Some r)" "r \<in> set (?a # Y)"
    "r = ?a \<or> gt d (dat h r)" "stop h gt d r" by blast
  show ?thesis
  proof (cases "r = ?a")
    case True
    with r c k show ?thesis by auto
  next
    case False
    from r(2) split have "r \<in> set (lvl k ?full)" by auto
    then obtain c' where c': "c' \<in> set ?full" "k < length (snd c')" "r = snd c' ! k"
      unfolding set_lvl by blast
    from False r(3) wf_data [OF wf c'(1,2)] c'(3) have "gt d (fst c')" by simp
    with r c' show ?thesis by auto
  qed
qed

lemma find_previous_desc:
  assumes wf: "well_formed h hs cs"
  shows "c \<in> set ((0, hs) # cs) \<Longrightarrow> k < length (snd c) \<Longrightarrow>
    \<exists>c'\<in>set ((0, hs) # cs). snd c' \<noteq> [] \<and> (c' = c \<or> gt d (fst c')) \<and>
       find_previous gt h (Some (snd c ! k)) d = Some (Some (snd c' ! 0)) \<and>
       stop h gt d (snd c' ! 0)"
proof (induction k arbitrary: c)
  case 0
  from level_step [OF wf 0(1) 0(2), of gt d] obtain c' where c':
    "c' \<in> set ((0, hs) # cs)" "0 < length (snd c')" "c' = c \<or> gt d (fst c')"
    "find_previous_scan gt h (Some (snd c ! 0)) d = Some (Some (snd c' ! 0))"
    "stop h gt d (snd c' ! 0)" by blast
  from wf_down [OF wf c'(1,2)] obtain n where
    n: "cells h (snd c' ! 0) = Some n" "next_layer n = None"
    by (auto simp: fld_def)
  have "find_previous gt h (Some (snd c ! 0)) d = Some (Some (snd c' ! 0))"
    by (subst find_previous.simps) (simp add: c'(4) deref_Some n)
  with c' show ?case by auto
next
  case (Suc k)
  from level_step [OF wf Suc.prems, of gt d] obtain c' where c':
    "c' \<in> set ((0, hs) # cs)" "Suc k < length (snd c')" "c' = c \<or> gt d (fst c')"
    "find_previous_scan gt h (Some (snd c ! Suc k)) d = Some (Some (snd c' ! Suc k))"
    "stop h gt d (snd c' ! Suc k)" by blast
  from wf_down [OF wf c'(1,2)] obtain n where
    n: "cells h (snd c' ! Suc k) = Some n" "next_layer n = Some (snd c' ! k)"
    by (auto simp: fld_def)
  from c'(2) have "k < length (snd c')" by simp
  from Suc.IH [OF c'(1) this] obtain c'' where c'':
    "c'' \<in> set ((0, hs) # cs)" "snd c'' \<noteq> []" "c'' = c' \<or> gt d (fst c'')"
    "find_previous gt h (Some (snd c' ! k)) d = Some (Some (snd c'' ! 0))"
    "stop h gt d (snd c'' ! 0)" by blast
  have "find_previous gt h (Some (snd c ! Suc k)) d = Some (Some (snd c'' ! 0))"
    by (subst find_previous.simps) (simp add: c'(4) deref_Some n c''(4))
  with c'' c'(3) show ?case by auto
qed

text \<open>From the topmost header.\<close>

lemma find_previous_top:
  assumes "wf_sl h sl hs cs"
  shows "\<exists>c\<in>set ((0, hs) # cs). snd c \<noteq> [] \<and> (c = (0, hs) \<or> gt d (fst c)) \<and>
       find_previous gt h (first_node sl) d = Some (Some (snd c ! 0)) \<and>
       stop h gt d (snd c ! 0)"
proof -
  from assms have wf: "well_formed h hs cs" and fn: "first_node sl = Some (last hs)"
    by (simp_all add: wf_sl_def)
  from wf have ne: "hs \<noteq> []" by (simp add: well_formed_def)
  then have l: "last hs = snd (0::nat, hs) ! (length hs - 1)" "length hs - 1 < length (snd (0::nat, hs))"
    by (simp_all add: last_conv_nth)
  from find_previous_desc [OF wf _ l(2), of gt d] l(1) fn show ?thesis by auto
qed

subsection \<open>Where the search stops\<close>


lemma wf_lvl0: "well_formed h hs cs \<Longrightarrow> set X \<subseteq> set cs \<Longrightarrow> lvl 0 X = map (\<lambda>c. snd c ! 0) X"
proof -
  assume "well_formed h hs cs" "set X \<subseteq> set cs"
  then have "\<forall>c\<in>set X. snd c \<noteq> []" by (auto simp: well_formed_def)
  then have "filter (\<lambda>c. 0 < length (snd c)) X = X" by (simp add: filter_id_conv)
  then show ?thesis by (simp add: lvl_def)
qed

lemma wf_lvl0_hdr: "well_formed h hs cs \<Longrightarrow> set X \<subseteq> set cs \<Longrightarrow> lvl 0 ((0, hs) # X) = hs ! 0 # map (\<lambda>c. snd c ! 0) X"
  using wf_lvl0 [of h hs cs X] by (simp add: lvl_Cons well_formed_def)

lemma find_split:
  assumes "wf_sl h sl hs cs"
  shows "\<exists>A B. cs = A @ B \<and> (A = [] \<or> gt d (fst (last A))) \<and> (B = [] \<or> \<not> gt d (fst (hd B))) \<and>
           find_previous gt h (first_node sl) d = Some (Some (last (lvl 0 ((0, hs) # A)))) \<and>
           fld next_node h (last (lvl 0 ((0, hs) # A))) = Some (hdo (lvl 0 B) None)"
proof -
  from assms have wf: "well_formed h hs cs" by (simp add: wf_sl_def)
  from find_previous_top [OF assms, of gt d] obtain c where c:
    "c \<in> set ((0, hs) # cs)" "snd c \<noteq> []" "c = (0, hs) \<or> gt d (fst c)"
    "find_previous gt h (first_node sl) d = Some (Some (snd c ! 0))" "stop h gt d (snd c ! 0)"
    by blast
  have "\<exists>A B. cs = A @ B \<and> (A = [] \<or> gt d (fst (last A))) \<and> last ((0, hs) # A) = c"
  proof (cases "c = (0, hs)")
    case True
    then show ?thesis by (intro exI [of _ "[]"] exI [of _ cs]) simp
  next
    case False
    with c(1) have "c \<in> set cs" by simp
    then obtain A' B where "cs = A' @ c # B" by (auto dest: split_list)
    with False c(3) show ?thesis
      by (intro exI [of _ "A' @ [c]"] exI [of _ B]) simp
  qed
  then obtain A B where AB: "cs = A @ B" "A = [] \<or> gt d (fst (last A))" "last ((0, hs) # A) = c"
    by blast
  have lA: "lvl 0 ((0, hs) # A) = map (\<lambda>c. snd c ! 0) ((0, hs) # A)"
    using wf_lvl0_hdr [OF wf, of A] AB(1) by simp
  have lB: "lvl 0 B = map (\<lambda>c. snd c ! 0) B"
    using wf_lvl0 [OF wf, of B] AB(1) by simp
  have r: "last (lvl 0 ((0, hs) # A)) = snd c ! 0"
    unfolding lA using AB(3) by (cases "A = []") (auto simp: last_map)
  from wf have "0 < length hs" by (simp add: well_formed_def)
  moreover have "lvl 0 ((0, hs) # cs) = lvl 0 ((0, hs) # A) @ lvl 0 B"
    unfolding AB(1) using lvl_append [of 0 "(0, hs) # A" B] by simp
  ultimately have "chainF (fld next_node h) (lvl 0 ((0, hs) # A) @ lvl 0 B) None"
    using wf_horiz [OF wf, of 0] by simp
  then have "chainF (fld next_node h) (lvl 0 ((0, hs) # A)) (hdo (lvl 0 B) None)"
    by simp
  moreover have "lvl 0 ((0, hs) # A) = butlast (lvl 0 ((0, hs) # A)) @ [snd c ! 0]"
    using r lA by (metis append_butlast_last_id list.map_disc_iff list.simps(3))
  ultimately have nn: "fld next_node h (snd c ! 0) = Some (hdo (lvl 0 B) None)"
    by (metis chainF.simps(2) chainF_append hdo.simps(1))
  have "B = [] \<or> \<not> gt d (fst (hd B))"
  proof (cases B)
    case Nil
    then show ?thesis by simp
  next
    case (Cons b B')
    then have "hdo (lvl 0 B) None = Some (snd b ! 0)" unfolding lB by simp
    with c(5) nn have "\<not> gt d (dat h (snd b ! 0))" by (simp add: stop_def)
    moreover have "b \<in> set ((0, hs) # cs)" "0 < length (snd b)"
      using AB(1) Cons wf by (auto simp: well_formed_def)
    ultimately show ?thesis using wf_data [OF wf, of b 0] Cons by simp
  qed
  with AB(1,2) c(4) nn r show ?thesis
    by (intro exI [of _ A] exI [of _ B]) simp
qed

lemma sorted_split:
  assumes tr: "transp gt" and so: "sorted_wrt (\<lambda>x y. gt y x) (map fst (A @ B))"
    and a: "A = [] \<or> gt d (fst (last A))" and b: "B = [] \<or> \<not> gt d (fst (hd B))"
  shows "(\<forall>x\<in>set A. gt d (fst x)) \<and> (\<forall>y\<in>set B. \<not> gt d (fst y))"
proof (intro conjI ballI)
  fix x assume x: "x \<in> set A"
  then have ne: "A \<noteq> []" by auto
  with a have la: "gt d (fst (last A))" by simp
  show "gt d (fst x)"
  proof (cases "x = last A")
    case True
    with la show ?thesis by simp
  next
    case False
    from ne have A: "A = butlast A @ [last A]" by simp
    with x False have "x \<in> set (butlast A)" by (metis in_set_butlast_appendI in_set_conv_decomp rotate1.simps(2) set_ConsD set_rotate1)
    moreover from so have "sorted_wrt (\<lambda>x y. gt y x) (map fst (butlast A @ [last A]))"
      using A by (simp add: sorted_wrt_append)
    ultimately have "gt (fst (last A)) (fst x)" by (auto simp: sorted_wrt_append)
    with la tr show ?thesis by (meson transpD)
  qed
next
  fix y assume y: "y \<in> set B"
  then obtain b0 B' where B: "B = b0 # B'" by (cases B) auto
  with b have nb: "\<not> gt d (fst b0)" by simp
  show "\<not> gt d (fst y)"
  proof (cases "y = b0")
    case True
    with nb show ?thesis by simp
  next
    case False
    with y B have "y \<in> set B'" by simp
    with so B have "gt (fst y) (fst b0)" by (auto simp: sorted_wrt_append)
    with nb tr show ?thesis by (meson transpD)
  qed
qed

subsection \<open>What the public functions do with the result of the search\<close>


lemma probe:
  assumes "wf_sl h sl hs cs"
  shows "\<exists>A B. cs = A @ B \<and> (A = [] \<or> gt_func sl d (fst (last A))) \<and>
           (B = [] \<or> \<not> gt_func sl d (fst (hd B))) \<and>
           find_previous (gt_func sl) h (first_node sl) d = Some (Some (last (lvl 0 ((0, hs) # A)))) \<and>
           skip_list_contains h sl d = Some (if hit d B then 1 else 0) \<and>
           (\<not> hit d B \<longrightarrow> skip_list_remove h sl d = Some (h, sl, 0)) \<and>
           (hit d B \<longrightarrow> skip_list_insert h rs sl d = Some (h, rs, sl, 0)) \<and>
           (hit d B \<longrightarrow> skip_list_remove h sl d =
              do {
                h1 \<leftarrow> delete_node h (Some (snd (hd B) ! 0));
                (h2, fn) \<leftarrow> reduce_height h1 (first_node sl);
                Some (h2, sl\<lparr>first_node := fn, sl_size := sl_size sl - 1\<rparr>, 1)
              }) \<and>
           (\<not> hit d B \<longrightarrow> skip_list_insert h rs sl d =
              do {
                (h1, rs', nn) \<leftarrow> insert_node h rs (Some (last (lvl 0 ((0, hs) # A)))) None d;
                Some (h1, rs', sl\<lparr>sl_size := sl_size sl + 1\<rparr>, 1)
              })"
proof -
  from assms have wf: "well_formed h hs cs" by (simp add: wf_sl_def)
  from find_split [OF assms, of "gt_func sl" d] obtain A B where AB:
    "cs = A @ B" "A = [] \<or> gt_func sl d (fst (last A))" "B = [] \<or> \<not> gt_func sl d (fst (hd B))"
    "find_previous (gt_func sl) h (first_node sl) d = Some (Some (last (lvl 0 ((0, hs) # A))))"
    "fld next_node h (last (lvl 0 ((0, hs) # A))) = Some (hdo (lvl 0 B) None)"
    by blast
  let ?r = "last (lvl 0 ((0, hs) # A))"
  from AB(5) obtain n where n: "cells h ?r = Some n" "next_node n = hdo (lvl 0 B) None"
    by (auto simp: fld_def)
  have lB: "lvl 0 B = map (\<lambda>c. snd c ! 0) B"
    using wf_lvl0 [OF wf, of B] AB(1) by simp
  show ?thesis
  proof (cases B)
    case Nil
    then have nn: "next_node n = None" and nh: "\<not> hit d B" using n(2) by (simp_all add: hit_def)
    have "skip_list_contains h sl d = Some 0"
      by (simp add: skip_list_contains_def AB(4) deref_Some n(1) nn)
    moreover have "skip_list_remove h sl d = Some (h, sl, 0)"
      by (simp add: skip_list_remove_def AB(4) deref_Some n(1) nn)
    moreover have "skip_list_insert h rs sl d =
              do {
                (h1, rs', nn) \<leftarrow> insert_node h rs (Some ?r) None d;
                Some (h1, rs', sl\<lparr>sl_size := sl_size sl + 1\<rparr>, 1)
              }"
      by (simp add: skip_list_insert_def AB(4) deref_Some n(1) nn)
    ultimately show ?thesis using AB(1-4) nh
      by (intro exI [of _ A] exI [of _ B]) simp
  next
    case (Cons b B')
    then have nn: "next_node n = Some (snd b ! 0)" using n(2) unfolding lB by simp
    have "b \<in> set ((0, hs) # cs)" "0 < length (snd b)"
      using AB(1) Cons wf by (auto simp: well_formed_def)
    from wf_data [OF wf this] obtain m where m: "cells h (snd b ! 0) = Some m" "data m = fst b"
      using \<open>b \<in> set ((0, hs) # cs)\<close> \<open>0 < length (snd b)\<close> wf
      unfolding well_formed_def downs_def fld_def by (metis (no_types, lifting) nth_mem option.simps(9) map_option_eq_Some)
    have hb: "hit d B = (fst b = d)" using Cons by (simp add: hit_def)
    have "skip_list_contains h sl d = Some (if hit d B then 1 else 0)"
      by (simp add: skip_list_contains_def AB(4) deref_Some n(1) nn m hb)
    moreover have "\<not> hit d B \<longrightarrow> skip_list_remove h sl d = Some (h, sl, 0)"
      by (simp add: skip_list_remove_def AB(4) deref_Some n(1) nn m hb)
    moreover have "hit d B \<longrightarrow> skip_list_insert h rs sl d = Some (h, rs, sl, 0)"
      by (simp add: skip_list_insert_def AB(4) deref_Some n(1) nn m hb)
    moreover have "hit d B \<longrightarrow> skip_list_remove h sl d =
              do {
                h1 \<leftarrow> delete_node h (Some (snd (hd B) ! 0));
                (h2, fn) \<leftarrow> reduce_height h1 (first_node sl);
                Some (h2, sl\<lparr>first_node := fn, sl_size := sl_size sl - 1\<rparr>, 1)
              }"
      by (simp add: skip_list_remove_def AB(4) deref_Some n(1) nn m hit_def Cons)
    moreover have "\<not> hit d B \<longrightarrow> skip_list_insert h rs sl d =
              do {
                (h1, rs', nn) \<leftarrow> insert_node h rs (Some ?r) None d;
                Some (h1, rs', sl\<lparr>sl_size := sl_size sl + 1\<rparr>, 1)
              }"
      by (simp add: skip_list_insert_def AB(4) deref_Some n(1) nn m hb)
    ultimately show ?thesis using AB(1-4)
      by (intro exI [of _ A] exI [of _ B]) simp
  qed
qed

lemma hit_stored: "hit d B \<Longrightarrow> d \<in> set (map fst (A @ B))"
  by (cases B) (auto simp: hit_def)

lemma hit_iff:
  assumes tr: "transp gt" and ir: "irreflp gt" and so: "sorted_sl gt (A @ B)"
    and a: "A = [] \<or> gt d (fst (last A))" and b: "B = [] \<or> \<not> gt d (fst (hd B))"
  shows "hit d B \<longleftrightarrow> d \<in> set (map fst (A @ B))"
proof
  assume "hit d B"
  then show "d \<in> set (map fst (A @ B))" by (rule hit_stored)
next
  assume "d \<in> set (map fst (A @ B))"
  then obtain c where c: "c \<in> set (A @ B)" "fst c = d" by auto
  from sorted_split [OF tr _ a b] so
  have AB: "\<forall>x\<in>set A. gt d (fst x)" "\<forall>y\<in>set B. \<not> gt d (fst y)"
    by (simp_all add: sorted_sl_def)
  from ir have nd: "\<not> gt d d" by (simp add: irreflp_def)
  with AB(1) c have "c \<notin> set A" by auto
  with c have cB: "c \<in> set B" by simp
  then obtain b0 B' where B: "B = b0 # B'" by (cases B) auto
  have "c = b0"
  proof (rule ccontr)
    assume "c \<noteq> b0"
    with cB B have "c \<in> set B'" by simp
    with so B have "gt (fst c) (fst b0)" by (auto simp: sorted_sl_def sorted_wrt_append)
    with c(2) AB(2) B show False by simp
  qed
  with B c(2) show "hit d B" by (simp add: hit_def)
qed

section \<open>Search, membership, and the calls that change nothing\<close>


lemmas well_formed_defs = wf_sl_def well_formed_def horiz_def downs_def ups_def lvl_def addrs_def fld_def
  heap_of_def node_def less_Suc_eq numeral_3_eq_3 numeral_2_eq_2 sorted_sl_def

lemma ex_wf: "wf_sl ex_heap ex_sl ex_hs ex_cs"
  unfolding ex_heap_def ex_sl_def ex_hs_def ex_cs_def by (simp add: well_formed_defs)

lemma half_wf: "wf_sl half_heap half_sl [0] [(2, [1])]"
  unfolding half_heap_def half_sl_def by (simp add: well_formed_defs)

lemma gt_nat_order: "transp gt_nat" "irreflp gt_nat"
  by (auto simp: transp_def irreflp_def gt_nat_def)

lemma gt_half_order: "transp gt_half" "irreflp gt_half"
  by (auto simp: transp_def irreflp_def gt_half_def)

lemma ex_sorted: "sorted_sl gt_nat ex_cs"
  by (simp add: sorted_sl_def ex_cs_def gt_nat_def)

lemma half_run:
  "skip_list_insert (fst (skip_list_create heap0 gt_half)) [0] (snd (skip_list_create heap0 gt_half)) 2
     = Some (half_heap, [], half_sl, 1)"
  apply (simp add: skip_list_create_def malloc_def heap0_def skip_list_insert_def)
  apply (subst find_previous.simps)
  apply (subst find_previous_scan.simps)
  apply (simp add: deref_def update_def coin_flip_def malloc_def half_heap_def half_sl_def heap_of_def node_def fun_eq_iff)
  done

subsection \<open>The search\<close>

text \<open>
  Claim C2. On a well-formed skip list whose stored payloads are strictly increasing under a
  transitive \<open>gt\<close>, \<open>_find_previous\<close> called on the topmost header returns, for every
  target \<open>d\<close>, the rightmost node of level 0 whose payload is ordered before \<open>d\<close>
  (\<open>gt d\<close> holds of its payload), and the header of level 0, \<open>hs ! 0\<close>, when there is
  none. The search returns: the result is \<open>Some\<close>.
\<close>

theorem find_previous_rightmost:
  assumes "wf_sl h sl hs cs" and "transp gt" and "sorted_sl gt cs"
  shows "find_previous gt h (first_node sl) d =
           Some (Some (last (hs ! 0 # filter (\<lambda>a. gt d (dat h a)) (lvl 0 cs))))"
proof -
  from assms(1) have wf: "well_formed h hs cs" by (simp add: wf_sl_def)
  from find_split [OF assms(1), of gt d] obtain A B where AB:
    "cs = A @ B" "A = [] \<or> gt d (fst (last A))" "B = [] \<or> \<not> gt d (fst (hd B))"
    "find_previous gt h (first_node sl) d = Some (Some (last (lvl 0 ((0, hs) # A))))"
    by blast
  from sorted_split [OF assms(2) _ AB(2,3)] assms(3) AB(1)
  have split: "\<forall>x\<in>set A. gt d (fst x)" "\<forall>y\<in>set B. \<not> gt d (fst y)"
    by (simp_all add: sorted_sl_def)
  have data0: "\<And>c. c \<in> set cs \<Longrightarrow> dat h (snd c ! 0) = fst c"
    using wf_data [OF wf, of _ 0] wf by (auto simp: well_formed_def)
  have "filter (\<lambda>a. gt d (dat h a)) (lvl 0 cs) = map (\<lambda>c. snd c ! 0) (filter (\<lambda>c. gt d (fst c)) cs)"
    unfolding wf_lvl0 [OF wf subset_refl] filter_map o_def
    using data0 by (metis (mono_tags, lifting) filter_cong)
  also have "filter (\<lambda>c. gt d (fst c)) cs = A"
    unfolding AB(1) using split by (simp add: filter_id_conv filter_empty_conv)
  finally have "hs ! 0 # filter (\<lambda>a. gt d (dat h a)) (lvl 0 cs) = lvl 0 ((0, hs) # A)"
    using wf_lvl0_hdr [OF wf, of A] AB(1) by simp
  with AB(4) show ?thesis by simp
qed

theorem find_previous_rightmost_witness:
  "wf_sl ex_heap ex_sl ex_hs ex_cs \<and> transp gt_nat \<and> sorted_sl gt_nat ex_cs \<and>
   find_previous gt_nat ex_heap (first_node ex_sl) 4 = Some (Some 6)"
proof -
  have "last (ex_hs ! 0 # filter (\<lambda>a. gt_nat 4 (dat ex_heap a)) (lvl 0 ex_cs)) = 6"
    by (simp add: ex_hs_def ex_cs_def lvl_def dat_def ex_heap_def heap_of_def node_def gt_nat_def)
  with find_previous_rightmost [OF ex_wf gt_nat_order(1) ex_sorted, of 4]
  show ?thesis using ex_wf gt_nat_order(1) ex_sorted by simp
qed

subsection \<open>Removing what is not stored\<close>

text \<open>
  Claim C4. On a well-formed skip list with an irreflexive \<open>gt_func\<close>, when no stored
  payload is order-equal to the argument \<open>d\<close> (each one is ordered before or after it),
  \<open>skip_list_remove\<close> returns 0 and gives back the store and the container as they were:
  the element count and every node of every level are unchanged.
\<close>

theorem remove_absent:
  assumes "wf_sl h sl hs cs" and "irreflp (gt_func sl)"
    and "\<forall>p\<in>set (map fst cs). gt_func sl d p \<or> gt_func sl p d"
  shows "skip_list_remove h sl d = Some (h, sl, 0)"
proof -
  from probe [OF assms(1), of d] obtain A B where AB:
    "cs = A @ B" "\<not> hit d B \<longrightarrow> skip_list_remove h sl d = Some (h, sl, 0)"
    by blast
  have "d \<notin> set (map fst cs)"
  proof
    assume "d \<in> set (map fst cs)"
    with assms(3) have "gt_func sl d d" by blast
    with assms(2) show False by (simp add: irreflp_def)
  qed
  with hit_stored [of d B A] AB(1) have "\<not> hit d B" by blast
  with AB(2) show ?thesis by simp
qed

theorem remove_absent_witness:
  "wf_sl ex_heap ex_sl ex_hs ex_cs \<and> irreflp (gt_func ex_sl) \<and>
   list_all (\<lambda>p. gt_func ex_sl 2 p \<or> gt_func ex_sl p 2) (map fst ex_cs) \<and>
   skip_list_remove ex_heap ex_sl 2 = Some (ex_heap, ex_sl, 0)"
proof -
  have ir: "irreflp (gt_func ex_sl)" using gt_nat_order(2) by (simp add: ex_sl_def)
  have all: "\<forall>p\<in>set (map fst ex_cs). gt_func ex_sl 2 p \<or> gt_func ex_sl p 2"
    by (simp add: ex_cs_def ex_sl_def gt_nat_def)
  from remove_absent [OF ex_wf ir all] ex_wf ir all show ?thesis
    by (simp add: list_all_iff)
qed

subsection \<open>Membership\<close>

text \<open>
  \<open>skip_list_contains\<close> compares the payload of the forward neighbour with the target by
  \<open>==\<close>. Under \<open>gt_half\<close> the payloads 2 and 3 are order-equal; the list that stores 2
  alone has pairwise order-inequivalent payloads, and it answers 0 for the target 3.
\<close>

theorem contains_order_equal_counterexample:
  "wf_sl half_heap half_sl [0] [(2, [1])] \<and> sorted_sl gt_half [(2, [1])] \<and>
   \<not> gt_half 3 2 \<and> \<not> gt_half 2 3 \<and> skip_list_contains half_heap half_sl 3 = Some 0"
proof -
  have "skip_list_contains half_heap half_sl 3 = Some 0"
    unfolding half_heap_def half_sl_def heap_of_def node_def by code_simp
  then show ?thesis using half_wf by (simp add: sorted_sl_def gt_half_def)
qed

text \<open>
  Claim C1, with identity in the place of order-equality. On a well-formed skip list whose
  stored payloads are strictly increasing under a transitive and irreflexive \<open>gt_func\<close>,
  \<open>skip_list_contains\<close> returns 1 when the target itself is one of the stored payloads and
  0 otherwise.
\<close>

theorem contains_iff_stored:
  assumes "wf_sl h sl hs cs" and "transp (gt_func sl)" and "irreflp (gt_func sl)"
    and "sorted_sl (gt_func sl) cs"
  shows "skip_list_contains h sl d = Some (if d \<in> set (map fst cs) then 1 else 0)"
proof -
  from probe [OF assms(1), of d] obtain A B where AB:
    "cs = A @ B" "A = [] \<or> gt_func sl d (fst (last A))" "B = [] \<or> \<not> gt_func sl d (fst (hd B))"
    "skip_list_contains h sl d = Some (if hit d B then 1 else 0)"
    by blast
  from hit_iff [OF assms(2,3) _ AB(2,3)] assms(4) AB(1)
  have "hit d B \<longleftrightarrow> d \<in> set (map fst cs)" by simp
  with AB(4) show ?thesis by simp
qed

theorem contains_iff_stored_witness:
  "wf_sl ex_heap ex_sl ex_hs ex_cs \<and> transp (gt_func ex_sl) \<and> irreflp (gt_func ex_sl) \<and>
   sorted_sl (gt_func ex_sl) ex_cs \<and> skip_list_contains ex_heap ex_sl 4 = Some 1 \<and>
   skip_list_contains ex_heap ex_sl 2 = Some 0"
proof -
  have g: "gt_func ex_sl = gt_nat" by (simp add: ex_sl_def)
  have hy: "transp (gt_func ex_sl)" "irreflp (gt_func ex_sl)" "sorted_sl (gt_func ex_sl) ex_cs"
    unfolding g using gt_nat_order ex_sorted by simp_all
  from contains_iff_stored [OF ex_wf hy, of 4] contains_iff_stored [OF ex_wf hy, of 2]
  show ?thesis using ex_wf hy by (simp add: ex_cs_def)
qed

subsection \<open>Inserting what is stored\<close>

text \<open>
  \<open>skip_list_insert\<close> tests for a duplicate by \<open>==\<close> as well. The list that stores 2
  under \<open>gt_half\<close> accepts the order-equal payload 3: the call returns 1 and the element
  count becomes 2.
\<close>

theorem insert_order_equal_counterexample:
  "wf_sl half_heap half_sl [0] [(2, [1])] \<and> sorted_sl gt_half [(2, [1])] \<and>
   \<not> gt_half 3 2 \<and> \<not> gt_half 2 3 \<and>
   map_option (snd \<circ> snd \<circ> snd) (skip_list_insert half_heap [0] half_sl 3) = Some 1 \<and>
   map_option (sl_size \<circ> fst \<circ> snd \<circ> snd) (skip_list_insert half_heap [0] half_sl 3) = Some 2"
proof -
  have "map_option (snd \<circ> snd \<circ> snd) (skip_list_insert half_heap [0] half_sl 3) = Some 1"
    unfolding half_heap_def half_sl_def heap_of_def node_def by code_simp
  moreover have "map_option (sl_size \<circ> fst \<circ> snd \<circ> snd) (skip_list_insert half_heap [0] half_sl 3) = Some 2"
    unfolding half_heap_def half_sl_def heap_of_def node_def by code_simp
  ultimately show ?thesis using half_wf by (simp add: sorted_sl_def gt_half_def)
qed

text \<open>
  Claim C3, with identity in the place of order-equality. On a well-formed skip list whose
  stored payloads are strictly increasing under a transitive and irreflexive \<open>gt_func\<close>,
  inserting a payload that is itself stored returns 0 and gives back the store, the values
  of \<open>rand()\<close> and the container as they were: no node is allocated, no coin is flipped,
  and the element count is unchanged.
\<close>

theorem insert_stored_noop:
  assumes "wf_sl h sl hs cs" and "transp (gt_func sl)" and "irreflp (gt_func sl)"
    and "sorted_sl (gt_func sl) cs" and "d \<in> set (map fst cs)"
  shows "skip_list_insert h rs sl d = Some (h, rs, sl, 0)"
proof -
  from probe [OF assms(1), of d rs] obtain A B where AB:
    "cs = A @ B" "A = [] \<or> gt_func sl d (fst (last A))" "B = [] \<or> \<not> gt_func sl d (fst (hd B))"
    "hit d B \<longrightarrow> skip_list_insert h rs sl d = Some (h, rs, sl, 0)"
    by blast
  from hit_iff [OF assms(2,3) _ AB(2,3)] assms(4,5) AB(1)
  have "hit d B" by simp
  with AB(4) show ?thesis by simp
qed

theorem insert_stored_noop_witness:
  "wf_sl ex_heap ex_sl ex_hs ex_cs \<and> transp (gt_func ex_sl) \<and> irreflp (gt_func ex_sl) \<and>
   sorted_sl (gt_func ex_sl) ex_cs \<and> 4 \<in> set (map fst ex_cs) \<and>
   skip_list_insert ex_heap [1, 0] ex_sl 4 = Some (ex_heap, [1, 0], ex_sl, 0)"
proof -
  have g: "gt_func ex_sl = gt_nat" by (simp add: ex_sl_def)
  have hy: "transp (gt_func ex_sl)" "irreflp (gt_func ex_sl)" "sorted_sl (gt_func ex_sl) ex_cs"
    unfolding g using gt_nat_order ex_sorted by simp_all
  have st: "4 \<in> set (map fst ex_cs)" by (simp add: ex_cs_def)
  from insert_stored_noop [OF ex_wf hy st, of "[1, 0]"]
  show ?thesis using ex_wf hy st by simp
qed

section \<open>Teardown\<close>

lemma heap_eqI: "cells h1 = cells h2 \<Longrightarrow> brk h1 = brk h2 \<Longrightarrow> h1 = (h2 :: heap)"
  by (cases h1, cases h2) simp

lemma delete_skip_list_None: "delete_skip_list h None = Some h"
  by (subst delete_skip_list.simps) simp

lemma swept_Nil: "swept g [] = g"
  by (simp add: swept_def)

lemma cells_swept_out:
  "x \<notin> set as \<Longrightarrow> \<forall>a\<in>set as. fld prev_layer g a \<noteq> Some (Some x) \<Longrightarrow> cells (swept g as) x = cells g x"
  by (auto simp: swept_def)

lemma live_swept: "x \<notin> set as \<Longrightarrow> live (swept g as) x = live g x"
  by (auto simp: swept_def live_def)

lemma sweep:
  assumes "distinct as" and "chainF (fld next_node g) as None"
    and "\<forall>x\<in>set as. fld next_layer g x = Some None"
    and "\<forall>x\<in>set as. \<exists>p. fld prev_layer g x = Some p \<and> (\<forall>u. p = Some u \<longrightarrow> live g u \<and> u \<notin> set as)"
  shows "delete_skip_list g (hdo as None) = Some (swept g as)"
  using assms
proof (induction as)
  case Nil
  then show ?case by (simp add: delete_skip_list_None swept_Nil)
next
  case (Cons a rest)
  from Cons.prems(2) have nn: "fld next_node g a = Some (hdo rest None)"
    and ch: "chainF (fld next_node g) rest None" by simp_all
  from Cons.prems(3) have nl: "fld next_layer g a = Some None" by simp
  from Cons.prems(4) obtain p where p: "fld prev_layer g a = Some p"
    "\<forall>u. p = Some u \<longrightarrow> live g u \<and> u \<noteq> a \<and> u \<notin> set rest" by auto
  from nn obtain c where c: "cells g a = Some c" by (auto simp: fld_def)
  with nn nl p(1) have cf: "next_node c = hdo rest None" "next_layer c = None" "prev_layer c = p"
    by (simp_all add: fld_def)
  have pre: "\<forall>x\<in>set rest. \<exists>p. fld prev_layer g x = Some p \<and> (\<forall>u. p = Some u \<longrightarrow> live g u \<and> u \<notin> set rest)"
    using Cons.prems(4) by auto
  have IH: "delete_skip_list g (hdo rest None) = Some (swept g rest)"
    using Cons.IH [OF _ ch _ pre] Cons.prems(1,3) by simp
  have a_rest: "a \<notin> set rest" using Cons.prems(1) by simp
  have no_up_a: "\<forall>b\<in>set rest. fld prev_layer g b \<noteq> Some (Some a)"
    using Cons.prems(4) by fastforce
  have c2: "cells (swept g rest) a = Some c"
    using cells_swept_out [OF a_rest no_up_a] c by simp
  show ?case
  proof (cases p)
    case None
    have la: "live (swept g rest) a" by (simp add: live_def c2)
    have "delete_skip_list g (Some a) = Some (del (swept g rest) a)"
      by (subst delete_skip_list.simps)
        (simp add: c cf delete_skip_list_None IH c2 None free_live [OF la])
    moreover have "del (swept g rest) a = swept g (a # rest)"
      using p(1) None by (intro heap_eqI) (auto simp: del_def swept_def fun_eq_iff)
    ultimately show ?thesis by simp
  next
    case (Some u)
    with p(2) have u: "live g u" "u \<noteq> a" "u \<notin> set rest" by auto
    then have lu: "live (swept g rest) u" by (simp add: live_swept)
    have "live (swept g rest) a" by (simp add: live_def c2)
    then have la: "live (upd (swept g rest) u (next_layer_update (\<lambda>_. None))) a"
      by simp
    have c3: "cells (upd (swept g rest) u (next_layer_update (\<lambda>_. None))) a = Some c"
      using u(2) by (simp add: upd_def c2)
    have "delete_skip_list g (Some a) =
            Some (del (upd (swept g rest) u (next_layer_update (\<lambda>_. None))) a)"
      by (subst delete_skip_list.simps)
        (simp add: c cf delete_skip_list_None IH c2 Some update_live [OF lu] c3 free_live [OF la])
    moreover have "del (upd (swept g rest) u (next_layer_update (\<lambda>_. None))) a = swept g (a # rest)"
      using p(1) Some u
      by (intro heap_eqI) (auto simp: del_def upd_def swept_def fun_eq_iff option.map_comp o_def)
    ultimately show ?thesis by simp
  qed
qed

subsection \<open>Freeing level after level\<close>


lemma lvl_full: "k < length hs \<Longrightarrow> lvl k ((0, hs) # cs) = hs ! k # lvl k cs"
  by (simp add: lvl_Cons)

lemma wf_lvl_top: "well_formed h hs cs \<Longrightarrow> length hs \<le> k \<Longrightarrow> lvl k ((0, hs) # cs) = []"
  by (auto simp: well_formed_def lvl_def filter_empty_conv)

lemma below_Suc: "below (Suc k) full = below k full @ lvl k full"
  by (simp add: below_def)

lemma in_below: "x \<in> set (below k full) \<longleftrightarrow> (\<exists>j<k. x \<in> set (lvl j full))"
  by (auto simp: below_def)

lemma below_0 [simp]: "below 0 full = []"
  by (simp add: below_def)

lemma lvl_not_below:
  assumes "distinct (addrs full)" and "x \<in> set (lvl k full)" and "j \<le> k"
  shows "x \<notin> set (below j full)"
proof
  assume "x \<in> set (below j full)"
  then obtain i where i: "i < j" "x \<in> set (lvl i full)" unfolding in_below by blast
  from lvl_disjoint [OF assms(1) assms(2) i(2)] i(1) assms(3) show False by simp
qed

lemma cells_stripped:
  "cells (stripped h full k) x =
     (if x \<in> set (below k full) then None
      else if x \<in> set (lvl k full) then map_option (next_layer_update (\<lambda>_. None)) (cells h x)
      else cells h x)"
  by (simp add: stripped_def)

lemma brk_stripped [simp]: "brk (stripped h full k) = brk h"
  by (simp add: stripped_def)

lemma cells_swept:
  "cells (swept g as) x =
     (if x \<in> set as then None
      else if \<exists>a\<in>set as. fld prev_layer g a = Some (Some x)
        then map_option (next_layer_update (\<lambda>_. None)) (cells g x)
        else cells g x)"
  by (simp add: swept_def)

lemma brk_swept [simp]: "brk (swept h as) = brk h"
  by (simp add: swept_def)

lemma fld_stripped:
  "x \<notin> set (below k full) \<Longrightarrow> fld next_node (stripped h full k) x = fld next_node h x"
  "x \<notin> set (below k full) \<Longrightarrow> fld prev_layer (stripped h full k) x = fld prev_layer h x"
  "x \<notin> set (below k full) \<Longrightarrow> live (stripped h full k) x = live h x"
  by (auto simp: fld_def live_def cells_stripped option.map_comp o_def)

lemma fld_stripped_down:
  "x \<notin> set (below k full) \<Longrightarrow> x \<in> set (lvl k full) \<Longrightarrow> live h x \<Longrightarrow>
   fld next_layer (stripped h full k) x = Some None"
  by (auto simp: fld_def live_def cells_stripped option.map_comp o_def)

lemma wf_live:
  "well_formed h hs cs \<Longrightarrow> c \<in> set ((0, hs) # cs) \<Longrightarrow> k < length (snd c) \<Longrightarrow> live h (snd c ! k)"
proof -
  assume "well_formed h hs cs" "c \<in> set ((0, hs) # cs)" "k < length (snd c)"
  then have "fld next_layer h (snd c ! k) = Some (if k = 0 then None else Some (snd c ! (k - 1)))"
    by (rule wf_down)
  then show ?thesis by (rule fld_live)
qed

lemma stripped_0:
  assumes wf: "well_formed h hs cs"
  shows "stripped h ((0, hs) # cs) 0 = h"
proof (intro heap_eqI ext)
  fix x
  show "cells (stripped h ((0, hs) # cs) 0) x = cells h x"
  proof (cases "x \<in> set (lvl 0 ((0, hs) # cs))")
    case True
    then obtain c where c: "c \<in> set ((0, hs) # cs)" "0 < length (snd c)" "x = snd c ! 0"
      unfolding set_lvl by blast
    from wf_down [OF wf c(1,2)] c(3) obtain n where "cells h x = Some n" "next_layer n = None"
      by (auto simp: fld_def)
    then show ?thesis using True by (simp add: cells_stripped)
  next
    case False
    then show ?thesis by (simp add: cells_stripped)
  qed
qed simp

lemma ups_level:
  assumes wf: "well_formed h hs cs"
  shows "(\<exists>a\<in>set (lvl k cs). fld prev_layer h a = Some (Some x)) \<longleftrightarrow> x \<in> set (lvl (Suc k) cs)"
proof
  assume "\<exists>a\<in>set (lvl k cs). fld prev_layer h a = Some (Some x)"
  then obtain c where c: "c \<in> set cs" "k < length (snd c)"
    "fld prev_layer h (snd c ! k) = Some (Some x)" by (auto simp: set_lvl)
  from wf_up [OF wf _ c(2)] c(1,3)
  have "Suc k < length (snd c) \<and> x = snd c ! Suc k" by (auto split: if_splits)
  with c(1) show "x \<in> set (lvl (Suc k) cs)" unfolding set_lvl by blast
next
  assume "x \<in> set (lvl (Suc k) cs)"
  then obtain c where c: "c \<in> set cs" "Suc k < length (snd c)" "x = snd c ! Suc k"
    unfolding set_lvl by blast
  then have "k < length (snd c)" by simp
  from wf_up [OF wf _ this] c have "fld prev_layer h (snd c ! k) = Some (Some x)" by simp
  moreover have "snd c ! k \<in> set (lvl k cs)" using c(1) \<open>k < length (snd c)\<close>
    unfolding set_lvl by blast
  ultimately show "\<exists>a\<in>set (lvl k cs). fld prev_layer h a = Some (Some x)" by blast
qed

lemma strip_level:
  assumes wf: "well_formed h hs cs" and k: "k < length hs"
    and down: "delete_skip_list h (if k = 0 then None else Some (hs ! (k - 1))) =
                 Some (stripped h ((0, hs) # cs) k)"
  shows "delete_skip_list h (Some (hs ! k)) = Some (stripped h ((0, hs) # cs) (Suc k))"
proof -
  let ?full = "(0, hs) # cs"
  let ?H = "hs ! k"
  let ?L = "lvl k cs"
  let ?h1 = "stripped h ?full k"
  let ?h2 = "swept ?h1 ?L"
  let ?f = "next_layer_update (\<lambda>_. None)"
  from wf have dist: "distinct (addrs ?full)" by (simp add: well_formed_def)
  have lvlk: "lvl k ?full = ?H # ?L" using k by (rule lvl_full)
  have lvlS: "lvl (Suc k) ?full = (if Suc k < length hs then hs ! Suc k # lvl (Suc k) cs else lvl (Suc k) cs)"
    by (simp add: lvl_Cons)
  have hdr: "(0, hs) \<in> set ?full" "k < length (snd (0::nat, hs))" using k by simp_all
  from wf_down [OF wf hdr] have nl: "fld next_layer h ?H = Some (if k = 0 then None else Some (hs ! (k - 1)))"
    by simp
  from wf_up [OF wf hdr] have pl: "fld prev_layer h ?H = Some (if Suc k < length hs then Some (hs ! Suc k) else None)"
    by simp
  from wf_horiz [OF wf k] lvlk have nn: "fld next_node h ?H = Some (hdo ?L None)"
    and chL0: "chainF (fld next_node h) ?L None" by simp_all
  from nn obtain c where c: "cells h ?H = Some c" by (auto simp: fld_def)
  with nl pl nn have cf: "next_layer c = (if k = 0 then None else Some (hs ! (k - 1)))"
    "prev_layer c = (if Suc k < length hs then Some (hs ! Suc k) else None)"
    "next_node c = hdo ?L None" by (simp_all add: fld_def)
  have nb: "\<And>x j. x \<in> set (lvl j ?full) \<Longrightarrow> k \<le> j \<Longrightarrow> x \<notin> set (below k ?full)"
    using lvl_not_below [OF dist] by blast
  have Lfull: "\<And>x. x \<in> set ?L \<Longrightarrow> x \<in> set (lvl k ?full)" by (simp add: lvlk)
  have SLfull: "\<And>x. x \<in> set (lvl (Suc k) cs) \<Longrightarrow> x \<in> set (lvl (Suc k) ?full)" by (simp add: lvlS)
  have nbL: "\<And>x. x \<in> set ?L \<Longrightarrow> x \<notin> set (below k ?full)" using nb [OF Lfull] by simp
  have nbS: "\<And>x. x \<in> set (lvl (Suc k) cs) \<Longrightarrow> x \<notin> set (below k ?full)" using nb [OF SLfull] by simp
  have dk: "distinct (?H # ?L)" using distinct_lvl [OF dist, of k] lvlk by simp
  have disj: "\<And>x. x \<in> set (lvl (Suc k) ?full) \<Longrightarrow> x \<notin> set (lvl k ?full)"
    using lvl_disjoint [OF dist] by fastforce
  have c1: "cells ?h1 ?H = Some (c\<lparr>next_layer := None\<rparr>)"
    using nb [of ?H k] by (simp add: cells_stripped lvlk c)
  have chL: "chainF (fld next_node ?h1) ?L None"
    using chL0 nbL by (subst chainF_cong [where F = "fld next_node h"]) (simp_all add: fld_stripped)
  have liveL: "\<And>x. x \<in> set ?L \<Longrightarrow> live h x"
    using chL0 by (meson chainF_defined fld_live)
  have nlL: "\<forall>x\<in>set ?L. fld next_layer ?h1 x = Some None"
    using nbL Lfull liveL by (simp add: fld_stripped_down)
  have upL: "\<forall>x\<in>set ?L. \<exists>p. fld prev_layer ?h1 x = Some p \<and> (\<forall>u. p = Some u \<longrightarrow> live ?h1 u \<and> u \<notin> set ?L)"
  proof
    fix x assume x: "x \<in> set ?L"
    then obtain c' where c': "c' \<in> set cs" "k < length (snd c')" "x = snd c' ! k"
      unfolding set_lvl by blast
    let ?p = "if Suc k < length (snd c') then Some (snd c' ! Suc k) else None"
    from wf_up [OF wf _ c'(2)] c'(1,3) have "fld prev_layer h x = Some ?p" by simp
    then have p1: "fld prev_layer ?h1 x = Some ?p" using nbL [OF x] by (simp add: fld_stripped)
    have "live ?h1 u \<and> u \<notin> set ?L" if "?p = Some u" for u
    proof -
      from that have u: "Suc k < length (snd c')" "u = snd c' ! Suc k" by (auto split: if_splits)
      with c'(1) have in_cs: "u \<in> set (lvl (Suc k) cs)" unfolding set_lvl by blast
      have "live h u" using wf_live [OF wf _ u(1)] c'(1) u(2) by simp
      with nbS [OF in_cs] have "live ?h1 u" by (simp add: fld_stripped)
      moreover have "u \<notin> set ?L" using disj [OF SLfull [OF in_cs]] Lfull by blast
      ultimately show ?thesis ..
    qed
    with p1 show "\<exists>p. fld prev_layer ?h1 x = Some p \<and> (\<forall>u. p = Some u \<longrightarrow> live ?h1 u \<and> u \<notin> set ?L)"
      by blast
  qed
  have sw: "delete_skip_list ?h1 (hdo ?L None) = Some ?h2"
    using dk chL nlL upL by (intro sweep) simp_all
  have upsL: "\<And>x. (\<exists>a\<in>set ?L. fld prev_layer ?h1 a = Some (Some x)) \<longleftrightarrow> x \<in> set (lvl (Suc k) cs)"
  proof -
    fix x
    have "(\<exists>a\<in>set ?L. fld prev_layer ?h1 a = Some (Some x)) \<longleftrightarrow>
          (\<exists>a\<in>set ?L. fld prev_layer h a = Some (Some x))"
      using nbL by (simp add: fld_stripped cong: bex_cong)
    then show "(\<exists>a\<in>set ?L. fld prev_layer ?h1 a = Some (Some x)) \<longleftrightarrow> x \<in> set (lvl (Suc k) cs)"
      using ups_level [OF wf, of k x] by simp
  qed
  have cells2: "\<And>x. cells ?h2 x =
      (if x \<in> set (below k ?full) \<or> x \<in> set ?L then None
       else if x = ?H \<or> x \<in> set (lvl (Suc k) cs) then map_option ?f (cells h x)
       else cells h x)"
  proof -
    fix x
    have e: "cells ?h2 x =
        (if x \<in> set ?L then None
         else if x \<in> set (lvl (Suc k) cs) then map_option ?f (cells ?h1 x) else cells ?h1 x)"
      by (simp add: cells_swept upsL)
    have s1: "cells ?h1 x =
        (if x \<in> set (below k ?full) then None
         else if x = ?H \<or> x \<in> set ?L then map_option ?f (cells h x) else cells h x)"
      by (simp add: cells_stripped lvlk)
    have "x \<in> set (lvl (Suc k) cs) \<Longrightarrow> x \<noteq> ?H \<and> x \<notin> set ?L"
      using disj [OF SLfull] by (simp add: lvlk)
    with nbS [of x] show "cells ?h2 x =
      (if x \<in> set (below k ?full) \<or> x \<in> set ?L then None
       else if x = ?H \<or> x \<in> set (lvl (Suc k) cs) then map_option ?f (cells h x)
       else cells h x)"
      by (cases "x \<in> set (lvl (Suc k) cs)") (simp_all add: e s1)
  qed
  have c2: "cells ?h2 ?H = Some (c\<lparr>next_layer := None\<rparr>)"
    using nb [of ?H k] dk by (simp add: cells2 lvlk c)
  have l2: "live ?h2 ?H" by (simp add: live_def c2)
  have stripS: "\<And>x. cells (stripped h ?full (Suc k)) x =
      (if x \<in> set (below k ?full) \<or> x = ?H \<or> x \<in> set ?L then None
       else if (Suc k < length hs \<and> x = hs ! Suc k) \<or> x \<in> set (lvl (Suc k) cs)
         then map_option ?f (cells h x)
       else cells h x)"
    by (simp add: cells_stripped below_Suc lvlk lvlS)
  show ?thesis
  proof (cases "Suc k < length hs")
    case False
    have "delete_skip_list h (Some ?H) = Some (del ?h2 ?H)"
      using False down
      by (subst delete_skip_list.simps) (simp add: c cf c1 sw c2 free_live [OF l2])
    moreover have "del ?h2 ?H = stripped h ?full (Suc k)"
    proof (intro heap_eqI ext)
      fix x
      have "cells (del ?h2 ?H) x = (if x = ?H then None else cells ?h2 x)" by (simp add: del_def)
      then show "cells (del ?h2 ?H) x = cells (stripped h ?full (Suc k)) x"
        using False by (simp add: cells2 stripS)
    qed simp
    ultimately show ?thesis by simp
  next
    case True
    let ?u = "hs ! Suc k"
    have uS: "?u \<in> set (lvl (Suc k) ?full)" using True by (simp add: lvlS)
    have u_nb: "?u \<notin> set (below k ?full)" using nb [OF uS] by simp
    have u_nk: "?u \<noteq> ?H" "?u \<notin> set ?L" using disj [OF uS] by (simp_all add: lvlk)
    have hdr': "Suc k < length (snd (0::nat, hs))" using True by simp
    have u_cs: "?u \<notin> set (lvl (Suc k) cs)"
      using distinct_lvl [OF dist, of "Suc k"] True by (simp add: lvlS)
    have "live h ?u" using wf_live [OF wf hdr(1) hdr'] by simp
    then have lu: "live ?h2 ?u" using u_nb u_nk u_cs by (simp add: live_def cells2)
    have c3: "cells (upd ?h2 ?u ?f) ?H = Some (c\<lparr>next_layer := None\<rparr>)"
      using u_nk(1) by (simp add: upd_def c2)
    from l2 have l3: "live (upd ?h2 ?u ?f) ?H" by simp
    have "delete_skip_list h (Some ?H) = Some (del (upd ?h2 ?u ?f) ?H)"
      using True down
      by (subst delete_skip_list.simps)
        (simp add: c cf c1 sw c2 update_live [OF lu] c3 free_live [OF l3])
    moreover have "del (upd ?h2 ?u ?f) ?H = stripped h ?full (Suc k)"
    proof (intro heap_eqI ext)
      fix x
      have "cells ?h2 ?u = cells h ?u" using u_nb u_nk u_cs by (simp add: cells2)
      then have "cells (del (upd ?h2 ?u ?f) ?H) x =
          (if x = ?H then None else if x = ?u then map_option ?f (cells h ?u) else cells ?h2 x)"
        by (simp add: del_def upd_def)
      then show "cells (del (upd ?h2 ?u ?f) ?H) x = cells (stripped h ?full (Suc k)) x"
        using True u_nb u_nk u_cs by (simp add: cells2 stripS)
    qed simp
    ultimately show ?thesis by simp
  qed
qed

lemma strip_step:
  assumes wf: "well_formed h hs cs"
  shows "k < length hs \<Longrightarrow>
    delete_skip_list h (Some (hs ! k)) = Some (stripped h ((0, hs) # cs) (Suc k))"
proof (induction k)
  case 0
  show ?case
    using strip_level [OF wf 0] by (simp add: delete_skip_list_None stripped_0 [OF wf])
next
  case (Suc k)
  then have "delete_skip_list h (Some (hs ! k)) = Some (stripped h ((0, hs) # cs) (Suc k))"
    by simp
  with strip_level [OF wf Suc.prems] show ?case by simp
qed

subsection \<open>The whole structure is freed\<close>


lemma below_all:
  assumes wf: "well_formed h hs cs"
  shows "set (below (length hs) ((0, hs) # cs)) = set (hs @ addrs cs)"
proof -
  let ?full = "(0, hs) # cs"
  have "x \<in> set (below (length hs) ?full) \<longleftrightarrow> x \<in> set (addrs ?full)" for x
  proof
    assume "x \<in> set (below (length hs) ?full)"
    then obtain j where "x \<in> set (lvl j ?full)" unfolding in_below by blast
    then show "x \<in> set (addrs ?full)" by (rule lvl_subset)
  next
    assume "x \<in> set (addrs ?full)"
    then obtain c where c: "c \<in> set ?full" "x \<in> set (snd c)" unfolding set_addrs by blast
    then obtain j where j: "j < length (snd c)" "x = snd c ! j" by (auto simp: in_set_conv_nth)
    from wf_col_len [OF wf c(1)] j(1) have "j < length hs" by simp
    moreover have "x \<in> set (lvl j ?full)" using c(1) j unfolding set_lvl by blast
    ultimately show "x \<in> set (below (length hs) ?full)" unfolding in_below by blast
  qed
  then show ?thesis by auto
qed

lemma delete_skip_list_all:
  assumes wf: "well_formed h hs cs"
  shows "delete_skip_list h (Some (last hs)) =
           Some (h\<lparr>cells := \<lambda>a. if a \<in> set (hs @ addrs cs) then None else cells h a\<rparr>)"
proof -
  let ?full = "(0, hs) # cs"
  from wf have ne: "hs \<noteq> []" by (simp add: well_formed_def)
  then have top: "length hs - 1 < length hs" "last hs = hs ! (length hs - 1)" "Suc (length hs - 1) = length hs"
    by (simp_all add: last_conv_nth)
  from strip_step [OF wf top(1)] top(2,3)
  have "delete_skip_list h (Some (last hs)) = Some (stripped h ?full (length hs))" by simp
  moreover have "stripped h ?full (length hs) =
      h\<lparr>cells := \<lambda>a. if a \<in> set (hs @ addrs cs) then None else cells h a\<rparr>"
    using wf_lvl_top [OF wf order_refl] below_all [OF wf]
    by (intro heap_eqI ext) (simp_all add: cells_stripped)
  ultimately show ?thesis by simp
qed

subsection \<open>The nodes that can be reached\<close>

lemma in_some_level:
  assumes "a \<in> set (addrs full)"
  shows "\<exists>k c. c \<in> set full \<and> k < length (snd c) \<and> a = snd c ! k"
  using assms unfolding set_addrs by (metis in_set_conv_nth)

lemma reach_sub:
  assumes wf: "well_formed h hs cs"
  shows "a \<in> reach h (Some (last hs)) \<Longrightarrow> a \<in> set (addrs ((0, hs) # cs))"
proof (induction rule: reach.induct)
  case (start a)
  from wf have "hs \<noteq> []" by (simp add: well_formed_def)
  with start show ?case by auto
next
  case (right a b)
  from in_some_level [OF right.IH] obtain k c where c: "c \<in> set ((0, hs) # cs)" "k < length (snd c)"
    "a = snd c ! k" by blast
  from wf_col_len [OF wf c(1)] c(2) have k: "k < length hs" by simp
  let ?L = "lvl k ((0, hs) # cs)"
  from c have "a \<in> set ?L" unfolding set_lvl by blast
  then obtain i where i: "i < length ?L" "?L ! i = a" by (auto simp: in_set_conv_nth)
  from wf_horiz [OF wf k] have "chainF (fld next_node h) ?L None" by simp
  from chainF_nth [OF this i(1)] i(2) right.hyps(2) have "Suc i < length ?L" "b = ?L ! Suc i"
    by (auto split: if_splits)
  then have "b \<in> set ?L" by simp
  then show ?case by (rule lvl_subset)
next
  case (down a b)
  from in_some_level [OF down.IH] obtain k c where c: "c \<in> set ((0, hs) # cs)" "k < length (snd c)"
    "a = snd c ! k" by blast
  from wf_down [OF wf c(1,2)] c(3) down.hyps(2) have "0 < k" "b = snd c ! (k - 1)"
    by (auto split: if_splits)
  with c(2) have "b \<in> set (snd c)" by simp
  with c(1) show ?case unfolding set_addrs by blast
qed

lemma reach_header:
  assumes wf: "well_formed h hs cs"
  shows "j < length hs \<Longrightarrow> hs ! (length hs - 1 - j) \<in> reach h (Some (last hs))"
proof (induction j)
  case 0
  from wf have ne: "hs \<noteq> []" by (simp add: well_formed_def)
  from wf_live [OF wf, of "(0, hs)" "length hs - 1"] ne have "live h (last hs)"
    by (simp add: last_conv_nth)
  then have "last hs \<in> reach h (Some (last hs))" by (intro reach.start) simp_all
  with ne show ?case by (simp add: last_conv_nth)
next
  case (Suc j)
  let ?k = "length hs - 1 - j"
  from Suc have IH: "hs ! ?k \<in> reach h (Some (last hs))" and k: "?k < length hs" "0 < ?k" by simp_all
  from wf_down [OF wf, of "(0, hs)" ?k] k
  have "fld next_layer h (hs ! ?k) = Some (Some (hs ! (?k - 1)))" by simp
  from reach.down [OF IH this] show ?case by simp
qed

lemma reach_level:
  assumes wf: "well_formed h hs cs" and k: "k < length hs"
  shows "i < length (lvl k ((0, hs) # cs)) \<Longrightarrow> lvl k ((0, hs) # cs) ! i \<in> reach h (Some (last hs))"
proof (induction i)
  case 0
  from reach_header [OF wf, of "length hs - 1 - k"] k
  have "hs ! k \<in> reach h (Some (last hs))" by simp
  then show ?case using lvl_full [OF k, of cs] by simp
next
  case (Suc i)
  let ?L = "lvl k ((0, hs) # cs)"
  from Suc have IH: "?L ! i \<in> reach h (Some (last hs))" and i: "i < length ?L" by simp_all
  from wf_horiz [OF wf k] have "chainF (fld next_node h) ?L None" by simp
  from chainF_nth [OF this i] Suc.prems have "fld next_node h (?L ! i) = Some (Some (?L ! Suc i))"
    by simp
  from reach.right [OF IH this] show ?case .
qed

lemma reach_wf:
  assumes "wf_sl h sl hs cs"
  shows "reach h (first_node sl) = set (hs @ addrs cs)"
proof -
  from assms have wf: "well_formed h hs cs" and fn: "first_node sl = Some (last hs)"
    by (simp_all add: wf_sl_def)
  have "a \<in> reach h (Some (last hs))" if "a \<in> set (addrs ((0, hs) # cs))" for a
  proof -
    from in_some_level [OF that] obtain k c where c: "c \<in> set ((0, hs) # cs)" "k < length (snd c)"
      "a = snd c ! k" by blast
    from wf_col_len [OF wf c(1)] c(2) have k: "k < length hs" by simp
    from c have "a \<in> set (lvl k ((0, hs) # cs))" unfolding set_lvl by blast
    then obtain i where "i < length (lvl k ((0, hs) # cs))" "lvl k ((0, hs) # cs) ! i = a"
      by (auto simp: in_set_conv_nth)
    with reach_level [OF wf k, of i] show ?thesis by simp
  qed
  with reach_sub [OF wf] have "reach h (Some (last hs)) = set (addrs ((0, hs) # cs))" by blast
  with fn show ?thesis by simp
qed

text \<open>
  Claim C9. On a well-formed skip list \<open>skip_list_destroy\<close> returns 0 without a fault.
  In the model \<open>free\<close> of a cell that is not allocated is a fault (\<open>None\<close>), as is any
  access to one, so returning means that no node was freed twice. The nodes that can be
  reached from the topmost header through \<open>_next_node\<close> and \<open>_next_layer\<close> are the
  headers and the nodes of the columns, that is, every node of every level. The store
  that is left holds none of them, and every other cell is as it was.
\<close>

theorem destroy_frees_every_node:
  assumes "wf_sl h sl hs cs"
  shows "\<exists>h'. skip_list_destroy h sl = Some (h', 0) \<and> brk h' = brk h \<and>
              reach h (first_node sl) = set (hs @ addrs cs) \<and>
              (\<forall>a. cells h' a = (if a \<in> reach h (first_node sl) then None else cells h a))"
proof -
  from assms have wf: "well_formed h hs cs" and fn: "first_node sl = Some (last hs)"
    by (simp_all add: wf_sl_def)
  have "reach h (first_node sl) = set (hs @ addrs cs)" using assms by (rule reach_wf)
  then show ?thesis
    by (simp add: skip_list_destroy_def fn delete_skip_list_all [OF wf])
qed

theorem destroy_frees_every_node_witness:
  "wf_sl ex_heap ex_sl ex_hs ex_cs \<and>
   map_option snd (skip_list_destroy ex_heap ex_sl) = Some 0 \<and>
   map_option (\<lambda>r. map (cells (fst r)) [0 ..< 9]) (skip_list_destroy ex_heap ex_sl) =
     Some [None, None, None, None, None, None, None, None, None]"
proof -
  from destroy_frees_every_node [OF ex_wf] obtain h' where h':
    "skip_list_destroy ex_heap ex_sl = Some (h', 0)"
    "reach ex_heap (first_node ex_sl) = set (ex_hs @ addrs ex_cs)"
    "\<forall>a. cells h' a = (if a \<in> reach ex_heap (first_node ex_sl) then None else cells ex_heap a)"
    by blast
  have "map (cells h') [0 ..< 9] = [None, None, None, None, None, None, None, None, None]"
    by (simp add: h'(2,3) ex_hs_def ex_cs_def addrs_def upt_rec)
  with h'(1) ex_wf show ?thesis by simp
qed

section \<open>A column under construction or demolition\<close>

lemma lvl_single: "lvl k [c] = (if k < length (snd c) then [snd c ! k] else [])"
  by (simp add: lvl_def)

lemma lvl_mid: "lvl k (A @ c # B) = lvl k A @ lvl k [c] @ lvl k B"
  using lvl_append [of k A "c # B"] lvl_append [of k "[c]" B] by simp

lemma lvl_empty_col [simp]: "lvl k [(d, [])] = []"
  by (simp add: lvl_def)

lemma wfx_empty: "wfx h hs A (d, []) B \<longleftrightarrow> well_formed h hs (A @ B)"
proof -
  have "lvl k ((0, hs) # A @ (d, []) # B) = lvl k ((0, hs) # A @ B)" for k
    using lvl_mid [of k "(0, hs) # A" "(d, [])" B] lvl_append [of k "(0, hs) # A" B] by simp
  then have "horiz h n ((0, hs) # A @ (d, []) # B) = horiz h n ((0, hs) # A @ B)" for n
    by (simp add: horiz_def)
  then show ?thesis
    by (simp add: wfx_def well_formed_def downs_def ball_Un)
qed

lemma wfx_full:
  "well_formed h hs (A @ c # B) \<longleftrightarrow> wfx h hs A c B \<and> snd c \<noteq> [] \<and> ups h c"
  by (auto simp: wfx_def well_formed_def ball_Un)

lemma chainF_remove:
  assumes "chainF F (X @ p # a # Y) q" and "F' p = Some (hdo Y q)"
    and "\<And>x. x \<in> set (X @ Y) \<Longrightarrow> F' x = F x"
  shows "chainF F' (X @ p # Y) q"
proof -
  from assms(1) have "chainF F X (Some p)" "chainF F Y q" by simp_all
  moreover have "chainF F' X (Some p) = chainF F X (Some p)" "chainF F' Y q = chainF F Y q"
    by (rule chainF_cong, simp add: assms(3))+
  ultimately show ?thesis using assms(2) by simp
qed

lemma chainB_remove:
  assumes "chainB B p0 (X @ a # Y)" and "Y \<noteq> [] \<Longrightarrow> B' (hd Y) = Some (lasto p0 X)"
    and "\<And>x. x \<in> set X \<union> set (tl Y) \<Longrightarrow> B' x = B x"
  shows "chainB B' p0 (X @ Y)"
proof -
  from assms(1) have X: "chainB B p0 X" and Y: "chainB B (Some a) Y" by simp_all
  have "chainB B' p0 X = chainB B p0 X" by (rule chainB_cong) (simp add: assms(3))
  with X have X': "chainB B' p0 X" by simp
  have "chainB B' (lasto p0 X) Y"
  proof (cases Y)
    case Nil
    then show ?thesis by simp
  next
    case (Cons y Y')
    with Y have "chainB B (Some y) Y'" by simp
    moreover have "chainB B' (Some y) Y' = chainB B (Some y) Y'"
      by (rule chainB_cong) (simp add: assms(3) Cons)
    ultimately show ?thesis using assms(2) Cons by simp
  qed
  with X' show ?thesis by simp
qed

lemma chainF_insert:
  assumes "chainF F (X @ Y) q" and "F' n = Some (hdo Y q)"
    and "X \<noteq> [] \<Longrightarrow> F' (last X) = Some (Some n)"
    and "\<And>x. x \<in> set (butlast X) \<union> set Y \<Longrightarrow> F' x = F x"
  shows "chainF F' (X @ n # Y) q"
proof -
  from assms(1) have Y: "chainF F Y q" by simp
  have "chainF F' Y q = chainF F Y q" by (rule chainF_cong) (simp add: assms(4))
  with Y have Y': "chainF F' Y q" by simp
  have "chainF F' X (Some n)"
  proof (cases "X = []")
    case True
    then show ?thesis by simp
  next
    case False
    then obtain X' p where X: "X = X' @ [p]" by (metis append_butlast_last_id)
    from assms(1) have "chainF F X' (Some p)" unfolding X by simp
    moreover have "chainF F' X' (Some p) = chainF F X' (Some p)"
      by (rule chainF_cong) (simp add: assms(4) X)
    moreover have "F' p = Some (Some n)" using assms(3) X by simp
    ultimately show ?thesis unfolding X by simp
  qed
  with Y' assms(2) show ?thesis by simp
qed

lemma chainB_insert:
  assumes "chainB B p0 (X @ Y)" and "B' n = Some (lasto p0 X)"
    and "Y \<noteq> [] \<Longrightarrow> B' (hd Y) = Some (Some n)"
    and "\<And>x. x \<in> set X \<union> set (tl Y) \<Longrightarrow> B' x = B x"
  shows "chainB B' p0 (X @ n # Y)"
proof -
  from assms(1) have X: "chainB B p0 X" and Y: "chainB B (lasto p0 X) Y" by simp_all
  have "chainB B' p0 X = chainB B p0 X" by (rule chainB_cong) (simp add: assms(4))
  with X have X': "chainB B' p0 X" by simp
  have "chainB B' (Some n) Y"
  proof (cases Y)
    case Nil
    then show ?thesis by simp
  next
    case (Cons y Y')
    with Y have "chainB B (Some y) Y'" by simp
    moreover have "chainB B' (Some y) Y' = chainB B (Some y) Y'"
      by (rule chainB_cong) (simp add: assms(4) Cons)
    ultimately show ?thesis using assms(3) Cons by simp
  qed
  with X' assms(2) show ?thesis by simp
qed

subsection \<open>Frame lemmas\<close>


lemma downs_cong:
  assumes "\<And>x. x \<in> set (snd c) \<Longrightarrow> fld next_layer h' x = fld next_layer h x"
    and "\<And>x. x \<in> set (snd c) \<Longrightarrow> fld data h' x = fld data h x"
  shows "downs h' c = downs h c"
proof -
  have "chainB (fld next_layer h') None (snd c) = chainB (fld next_layer h) None (snd c)"
    by (rule chainB_cong) (rule assms(1))
  then show ?thesis by (simp add: downs_def assms(2))
qed

lemma ups_cong:
  assumes "\<And>x. x \<in> set (snd c) \<Longrightarrow> fld prev_layer h' x = fld prev_layer h x"
  shows "ups h' c = ups h c"
  unfolding ups_def by (rule chainF_cong) (rule assms)

lemma level_cong:
  assumes "\<And>x. x \<in> set L \<Longrightarrow> fld prev_node h' x = fld prev_node h x"
    and "\<And>x. x \<in> set L \<Longrightarrow> fld next_node h' x = fld next_node h x"
  shows "(chainB (fld prev_node h') None L \<and> chainF (fld next_node h') L None) =
         (chainB (fld prev_node h) None L \<and> chainF (fld next_node h) L None)"
proof -
  have "chainB (fld prev_node h') None L = chainB (fld prev_node h) None L"
    by (rule chainB_cong) (rule assms(1))
  moreover have "chainF (fld next_node h') L None = chainF (fld next_node h) L None"
    by (rule chainF_cong) (rule assms(2))
  ultimately show ?thesis by simp
qed

lemma wfx_horiz:
  "wfx h hs A c B \<Longrightarrow> k < length hs \<Longrightarrow>
   chainB (fld prev_node h) None (lvl k ((0, hs) # A @ c # B)) \<and>
   chainF (fld next_node h) (lvl k ((0, hs) # A @ c # B)) None"
  by (simp add: wfx_def horiz_def)

lemma wfx_reg: "wfx h hs A c B \<Longrightarrow> x \<in> set ((0, hs) # A @ B) \<Longrightarrow> downs h x \<and> ups h x"
  unfolding wfx_def by blast

lemma wfx_special: "wfx h hs A c B \<Longrightarrow> downs h c"
  by (simp add: wfx_def)

lemma wfx_distinct: "wfx h hs A c B \<Longrightarrow> distinct (addrs ((0, hs) # A @ c # B))"
  by (simp add: wfx_def)

lemma lvl_special:
  "lvl k ((0, hs) # A @ c # B) = lvl k ((0, hs) # A) @ lvl k [c] @ lvl k B"
  using lvl_mid [of k "(0, hs) # A" c B] by simp

lemma lvl_hdrA_ne: "k < length hs \<Longrightarrow> lvl k ((0, hs) # A) \<noteq> []"
  by (simp add: lvl_Cons)

lemma lvl_grow:
  "l \<noteq> length col \<Longrightarrow> lvl l [(d, col @ [a])] = lvl l [(d, col)]"
  by (auto simp: lvl_single nth_append)

lemma lvl_grow_full:
  "l \<noteq> length col \<Longrightarrow>
   lvl l ((0, hs) # A @ (d, col @ [a]) # B) = lvl l ((0, hs) # A @ (d, col) # B)"
  by (simp add: lvl_special lvl_grow del: lvl_append)

lemma lvl_grow_at:
  "lvl (length col) ((0, hs) # A @ (d, col @ [a]) # B) =
     lvl (length col) ((0, hs) # A) @ a # lvl (length col) B"
  "lvl (length col) ((0, hs) # A @ (d, col) # B) =
     lvl (length col) ((0, hs) # A) @ lvl (length col) B"
  by (simp_all add: lvl_special lvl_single)

lemma delete_node_None: "delete_node h None = Some h"
  by (subst delete_node.simps) simp

lemma delete_node_step:
  assumes c: "cells h a = Some n" and rec: "delete_node h (prev_layer n) = Some h1"
    and wx: "wfx h1 hs A (d, col @ [a]) B"
  shows "\<exists>h'. delete_node h (Some a) = Some h' \<and> wfx h' hs A (d, col) B \<and> brk h' = brk h1"
proof -
  let ?k = "length col"
  let ?full1 = "(0, hs) # A @ (d, col @ [a]) # B"
  let ?full' = "(0, hs) # A @ (d, col) # B"
  let ?X = "lvl ?k ((0, hs) # A)"
  let ?Y = "lvl ?k B"
  from wx have k: "?k < length hs" by (simp add: wfx_def)
  from wfx_distinct [OF wx] have dist: "distinct (addrs ?full1)" .
  have lk: "lvl ?k ?full1 = ?X @ a # ?Y" by (rule lvl_grow_at)
  from lvl_hdrA_ne [OF k] obtain X' p where X: "?X = X' @ [p]"
    by (metis append_butlast_last_id)
  from wfx_horiz [OF wx k] have chB: "chainB (fld prev_node h1) None (X' @ p # a # ?Y)"
    and chF: "chainF (fld next_node h1) (X' @ p # a # ?Y) None"
    unfolding lk X by simp_all
  from distinct_lvl [OF dist, of ?k] have dk: "distinct (X' @ p # a # ?Y)" unfolding lk X by simp
  from chB have pa: "fld prev_node h1 a = Some (Some p)" by simp
  from chF have na: "fld next_node h1 a = Some (hdo ?Y None)"
    and np: "fld next_node h1 p = Some (Some a)" by simp_all
  from pa obtain n1 where n1: "cells h1 a = Some n1" by (auto simp: fld_def)
  with pa na have n1f: "prev_node n1 = Some p" "next_node n1 = hdo ?Y None" by (simp_all add: fld_def)
  from np have lp: "live h1 p" by (rule fld_live)
  from dk have pna: "p \<noteq> a" by simp
  let ?h2 = "upd h1 p (next_node_update (\<lambda>_. hdo ?Y None))"
  have n2: "cells ?h2 a = Some n1" using pna by (simp add: upd_def n1)
  define h3 where "h3 = (case ?Y of [] \<Rightarrow> ?h2 | y # _ \<Rightarrow> upd ?h2 y (prev_node_update (\<lambda>_. Some p)))"
  have step3: "(case hdo ?Y None of None \<Rightarrow> Some ?h2
        | Some nx \<Rightarrow> update ?h2 (Some nx) (\<lambda>n. n\<lparr>prev_node := Some p\<rparr>)) = Some h3"
  proof (cases ?Y)
    case Nil
    then show ?thesis by (simp add: h3_def)
  next
    case (Cons y Y')
    with chB have "fld prev_node h1 y = Some (Some a)" by simp
    then have "live ?h2 y" by (simp add: fld_live)
    then show ?thesis using Cons by (simp add: h3_def update_live)
  qed
  have "live h1 a" using n1 by (simp add: live_def)
  then have l3: "live h3 a" by (cases ?Y) (simp_all add: h3_def)
  define h' where "h' = del h3 a"
  have run: "delete_node h (Some a) = Some h'"
    by (subst delete_node.simps)
      (simp add: c rec n1 n1f update_live [OF lp] n2 step3 free_live [OF l3] h'_def)
  have brk': "brk h' = brk h1" by (cases ?Y) (simp_all add: h3_def h'_def)
  have NN: "\<And>x. fld next_node h' x =
      (if x = a then None else if x = p then Some (hdo ?Y None) else fld next_node h1 x)"
    using np by (cases ?Y) (simp_all add: h3_def h'_def)
  have PN: "\<And>x. fld prev_node h' x =
      (if x = a then None else if ?Y \<noteq> [] \<and> x = hd ?Y then Some (Some p) else fld prev_node h1 x)"
  proof -
    fix x
    show "fld prev_node h' x =
      (if x = a then None else if ?Y \<noteq> [] \<and> x = hd ?Y then Some (Some p) else fld prev_node h1 x)"
    proof (cases ?Y)
      case Nil
      then show ?thesis by (simp add: h3_def h'_def)
    next
      case (Cons y Y')
      with chB have "fld prev_node h1 y = Some (Some a)" by simp
      then show ?thesis using Cons by (simp add: h3_def h'_def)
    qed
  qed
  have OT: "\<And>x. fld prev_layer h' x = (if x = a then None else fld prev_layer h1 x)"
    "\<And>x. fld next_layer h' x = (if x = a then None else fld next_layer h1 x)"
    "\<And>x. fld data h' x = (if x = a then None else fld data h1 x)"
    by (cases ?Y; simp add: h3_def h'_def)+
  have a_lvl: "a \<in> set (lvl ?k ?full1)" "p \<in> set (lvl ?k ?full1)"
    "?Y \<noteq> [] \<Longrightarrow> hd ?Y \<in> set (lvl ?k ?full1)"
    unfolding lk X by simp_all
  have other: "x \<noteq> a \<and> x \<noteq> p \<and> (?Y \<noteq> [] \<longrightarrow> x \<noteq> hd ?Y)"
    if "x \<in> set (lvl l ?full1)" "l \<noteq> ?k" for x l
    using lvl_disjoint [OF dist that(1)] a_lvl that(2) by blast
  have horiz': "horiz h' (length hs) ?full'"
    unfolding horiz_def
  proof (intro allI impI)
    fix l assume l: "l < length hs"
    show "chainB (fld prev_node h') None (lvl l ?full') \<and> chainF (fld next_node h') (lvl l ?full') None"
    proof (cases "l = ?k")
      case True
      have "chainF (fld next_node h') (X' @ p # ?Y) None"
      proof (rule chainF_remove [OF chF])
        show "fld next_node h' p = Some (hdo ?Y None)" using pna by (simp add: NN)
        show "fld next_node h' x = fld next_node h1 x" if "x \<in> set (X' @ ?Y)" for x
          using that dk by (auto simp: NN)
      qed
      moreover have "chainB (fld prev_node h') None ((X' @ [p]) @ ?Y)"
      proof (rule chainB_remove [where a = a and B = "fld prev_node h1"])
        show "chainB (fld prev_node h1) None ((X' @ [p]) @ a # ?Y)" using chB by simp
        show "fld prev_node h' (hd ?Y) = Some (lasto None (X' @ [p]))" if "?Y \<noteq> []"
          using that dk by (cases ?Y) (auto simp: PN)
        show "fld prev_node h' x = fld prev_node h1 x" if "x \<in> set (X' @ [p]) \<union> set (tl ?Y)" for x
          using that dk by (cases ?Y) (auto simp: PN)
      qed
      ultimately show ?thesis unfolding True lvl_grow_at(2) X by simp
    next
      case False
      have same: "lvl l ?full' = lvl l ?full1" using lvl_grow_full [OF False] by simp
      have "(chainB (fld prev_node h') None (lvl l ?full1) \<and> chainF (fld next_node h') (lvl l ?full1) None) =
            (chainB (fld prev_node h1) None (lvl l ?full1) \<and> chainF (fld next_node h1) (lvl l ?full1) None)"
      proof (rule level_cong)
        fix x assume "x \<in> set (lvl l ?full1)"
        from other [OF this False]
        show "fld prev_node h' x = fld prev_node h1 x" "fld next_node h' x = fld next_node h1 x"
          by (auto simp: PN NN)
      qed
      with wfx_horiz [OF wx l] same show ?thesis by simp
    qed
  qed
  have a_notin: "a \<notin> set hs" "a \<notin> set (addrs A)" "a \<notin> set (addrs B)" "a \<notin> set col"
    using dist by auto
  have reg: "downs h' x \<and> ups h' x" if "x \<in> set ((0, hs) # A @ B)" for x
  proof -
    have "a \<notin> set (snd x)" using that a_notin by (auto simp: set_addrs)
    then have "downs h' x = downs h1 x" "ups h' x = ups h1 x"
      by (auto intro!: downs_cong ups_cong simp: OT)
    with wfx_reg [OF wx that] show ?thesis by simp
  qed
  have "downs h' (d, col)"
  proof -
    have "downs h' (d, col) = downs h1 (d, col)"
      using a_notin(4) by (auto intro!: downs_cong simp: OT)
    moreover from wx have "downs h1 (d, col @ [a])" by (rule wfx_special)
    then have "downs h1 (d, col)" by (simp add: downs_def)
    ultimately show ?thesis by simp
  qed
  moreover from wx have "hs \<noteq> []" "\<forall>x\<in>set (A @ B). snd x \<noteq> [] \<and> length (snd x) \<le> length hs"
    "length col \<le> length hs" "distinct (hs @ addrs (A @ (d, col) # B))"
    "\<forall>a\<in>set (hs @ addrs (A @ (d, col) # B)). a < brk h'"
    unfolding brk' by (auto simp: wfx_def)
  ultimately have "wfx h' hs A (d, col) B"
    using horiz' reg unfolding wfx_def by (intro conjI ballI) simp_all
  with run brk' show ?thesis by blast
qed

subsection \<open>Deleting a column\<close>


lemma delete_column:
  assumes wf: "well_formed h hs (A @ (d, col) # B)"
  shows "i \<le> length col \<Longrightarrow>
    \<exists>h'. delete_node h (if i < length col then Some (col ! i) else None) = Some h' \<and>
         wfx h' hs A (d, take i col) B \<and> brk h' = brk h"
proof (induction "length col - i" arbitrary: i)
  case 0
  then have "i = length col" by simp
  moreover from wf have "wfx h hs A (d, col) B" by (simp add: wfx_full)
  ultimately show ?case by (simp add: delete_node_None)
next
  case (Suc m)
  then have i: "i < length col" by simp
  have mem: "(d, col) \<in> set ((0, hs) # A @ (d, col) # B)" by simp
  from wf_up [OF wf mem] i
  have up: "fld prev_layer h (col ! i) = Some (if Suc i < length col then Some (col ! Suc i) else None)"
    by simp
  then obtain n where n: "cells h (col ! i) = Some n"
    "prev_layer n = (if Suc i < length col then Some (col ! Suc i) else None)"
    by (auto simp: fld_def)
  have "m = length col - Suc i" "Suc i \<le> length col" using Suc.hyps(2) i by simp_all
  from Suc.hyps(1) [OF this] obtain h1 where h1:
    "delete_node h (if Suc i < length col then Some (col ! Suc i) else None) = Some h1"
    "wfx h1 hs A (d, take (Suc i) col) B" "brk h1 = brk h"
    by blast
  from h1(2) i have wx: "wfx h1 hs A (d, take i col @ [col ! i]) B"
    by (simp add: take_Suc_conv_app_nth)
  from delete_node_step [OF n(1) _ wx] h1(1) n(2) obtain h' where
    "delete_node h (Some (col ! i)) = Some h'" "wfx h' hs A (d, take i col) B" "brk h' = brk h1"
    by auto
  with i h1(3) show ?case by auto
qed

lemma reduce_height_spec:
  "well_formed h hs cs \<Longrightarrow>
   \<exists>h' hs'. reduce_height h (Some (last hs)) = Some (h', Some (last hs')) \<and>
     well_formed h' hs' cs \<and> brk h' = brk h \<and>
     (length hs' = 1 \<or> lvl (length hs' - 1) cs \<noteq> []) \<and> (\<exists>n. hs' = take n hs)"
proof (induction hs arbitrary: h rule: rev_induct)
  case Nil
  then show ?case by (simp add: well_formed_def)
next
  case (snoc T H)
  let ?hs = "H @ [T]"
  let ?n = "length H"
  let ?full = "(0, ?hs) # cs"
  note wf = snoc.prems
  from wf have dist: "distinct (addrs ?full)" by (simp add: well_formed_def)
  have hdr: "(0, ?hs) \<in> set ?full" by simp
  from wf have "downs h (0, ?hs)" "ups h (0, ?hs)" by (simp_all add: well_formed_def)
  then have nlT: "fld next_layer h T = Some (lasto None H)"
    and chN: "chainB (fld next_layer h) None H"
    and chP: "chainF (fld prev_layer h) (H @ [T]) None"
    and dataH: "\<forall>a\<in>set H. fld data h a = Some 0"
    by (simp_all add: downs_def ups_def)
  have lvn: "lvl ?n ?full = T # lvl ?n cs" by (simp add: lvl_Cons)
  from wf_horiz [OF wf, of ?n] lvn have nnT: "fld next_node h T = Some (hdo (lvl ?n cs) None)"
    by simp
  from nnT obtain t where t: "cells h T = Some t" by (auto simp: fld_def)
  with nlT nnT have tf: "next_layer t = lasto None H" "next_node t = hdo (lvl ?n cs) None"
    by (simp_all add: fld_def)
  show ?case
  proof (cases "H = [] \<or> lvl ?n cs \<noteq> []")
    case True
    then have "next_layer t = None \<or> next_node t \<noteq> None"
      using tf by (cases "lvl ?n cs") auto
    then have "reduce_height h (Some (last ?hs)) = Some (h, Some (last ?hs))"
      by (subst reduce_height.simps) (auto simp: deref_Some t)
    moreover have "length ?hs = 1 \<or> lvl (length ?hs - 1) cs \<noteq> []" using True by auto
    moreover have "\<exists>n. ?hs = take n ?hs" by (rule exI [of _ "length ?hs"]) simp
    ultimately show ?thesis using wf by blast
  next
    case False
    then have Hne: "H \<noteq> []" and empty: "lvl ?n cs = []" by simp_all
    then obtain H' p where H: "H = H' @ [p]" by (metis append_butlast_last_id)
    have tf': "next_layer t = Some p" "next_node t = None" using tf H empty by simp_all
    from wf have dhs: "distinct (H @ [T])" by (simp add: well_formed_def)
    then have pT: "p \<noteq> T" using H by auto
    from chN H have "live h p" by (auto dest: fld_live)
    then have lp: "live (del h T) p" using pT by simp
    have lT: "live h T" using t by (simp add: live_def)
    define h2 where "h2 = upd (del h T) p (prev_layer_update (\<lambda>_. None))"
    have run: "reduce_height h (Some (last ?hs)) = reduce_height h2 (Some (last H))"
      by (subst reduce_height.simps)
        (simp add: deref_Some t tf' free_live [OF lT] update_live [OF lp] h2_def H)
    have brk2: "brk h2 = brk h" by (simp add: h2_def)
    have F: "\<And>x. fld prev_node h2 x = (if x = T then None else fld prev_node h x)"
      "\<And>x. fld next_node h2 x = (if x = T then None else fld next_node h x)"
      "\<And>x. fld next_layer h2 x = (if x = T then None else fld next_layer h x)"
      "\<And>x. fld data h2 x = (if x = T then None else fld data h x)"
      by (simp_all add: h2_def)
    from chP H have "fld prev_layer h p = Some (Some T)" by simp
    then have PL: "\<And>x. fld prev_layer h2 x =
        (if x = p then Some None else if x = T then None else fld prev_layer h x)"
      using pT by (simp add: h2_def)
    have short: "\<forall>c\<in>set cs. snd c \<noteq> [] \<and> length (snd c) \<le> length H"
    proof
      fix c assume c: "c \<in> set cs"
      with wf have "snd c \<noteq> []" by (simp add: well_formed_def)
      moreover have "\<not> ?n < length (snd c)"
        using empty c by (auto simp: lvl_def filter_empty_conv)
      ultimately show "snd c \<noteq> [] \<and> length (snd c) \<le> length H" by simp
    qed
    have T_top: "T \<notin> set (lvl l ?full)" if "l < ?n" for l
    proof
      assume "T \<in> set (lvl l ?full)"
      moreover have "T \<in> set (lvl ?n ?full)" by (simp add: lvn)
      ultimately show False using lvl_disjoint [OF dist] that by blast
    qed
    have horiz2: "horiz h2 (length H) ((0, H) # cs)"
      unfolding horiz_def
    proof (intro allI impI)
      fix l assume l: "l < length H"
      have same: "lvl l ((0, H) # cs) = lvl l ?full" using l by (simp add: lvl_Cons nth_append)
      have "(chainB (fld prev_node h2) None (lvl l ?full) \<and> chainF (fld next_node h2) (lvl l ?full) None) =
            (chainB (fld prev_node h) None (lvl l ?full) \<and> chainF (fld next_node h) (lvl l ?full) None)"
      proof (rule level_cong)
        fix x assume "x \<in> set (lvl l ?full)"
        with T_top [OF l] have "x \<noteq> T" by auto
        then show "fld prev_node h2 x = fld prev_node h x" "fld next_node h2 x = fld next_node h x"
          by (simp_all add: F)
      qed
      with wf_horiz [OF wf, of l] l same
      show "chainB (fld prev_node h2) None (lvl l ((0, H) # cs)) \<and>
            chainF (fld next_node h2) (lvl l ((0, H) # cs)) None" by simp
    qed
    have T_H: "T \<notin> set H" using dhs by simp
    have hdr_down: "downs h2 (0, H)"
    proof -
      have "chainB (fld next_layer h2) None H = chainB (fld next_layer h) None H"
        using T_H by (intro chainB_cong) (auto simp: F)
      with chN dataH T_H show ?thesis by (auto simp: downs_def F)
    qed
    have hdr_up: "ups h2 (0, H)"
    proof -
      have "chainF (fld prev_layer h) (H' @ p # T # []) None" using chP H by simp
      moreover have "fld prev_layer h2 p = Some (hdo [] None)" by (simp add: PL)
      moreover have "fld prev_layer h2 x = fld prev_layer h x" if "x \<in> set (H' @ [])" for x
        using that dhs H by (auto simp: PL)
      ultimately have "chainF (fld prev_layer h2) (H' @ p # []) None"
        by (rule chainF_remove)
      then show ?thesis by (simp add: ups_def H)
    qed
    have cols: "downs h2 c \<and> ups h2 c" if "c \<in> set cs" for c
    proof -
      from wf have "set ?hs \<inter> set (addrs cs) = {}" by (simp add: well_formed_def)
      moreover have "set (snd c) \<subseteq> set (addrs cs)" using that by (auto simp: set_addrs)
      ultimately have "set (snd c) \<inter> set ?hs = {}" by blast
      then have "\<And>x. x \<in> set (snd c) \<Longrightarrow> x \<noteq> T \<and> x \<noteq> p" using H by auto
      then have "downs h2 c = downs h c" "ups h2 c = ups h c"
        by (auto intro!: downs_cong ups_cong simp: F PL)
      with wf that show ?thesis by (simp add: well_formed_def)
    qed
    have wf2: "well_formed h2 H cs"
      unfolding well_formed_def
      using Hne short horiz2 hdr_down hdr_up cols wf brk2
      by (auto simp: well_formed_def)
    from snoc.IH [OF wf2] obtain h' hs' where res:
      "reduce_height h2 (Some (last H)) = Some (h', Some (last hs'))"
      "well_formed h' hs' cs" "brk h' = brk h2"
      "length hs' = 1 \<or> lvl (length hs' - 1) cs \<noteq> []" "\<exists>n. hs' = take n H"
      by blast
    from res(5) obtain n where "hs' = take n H" by blast
    then have "hs' = take (min n (length H)) ?hs"
      by (cases "n \<le> length H") (simp_all add: min_def)
    then have "\<exists>n. hs' = take n ?hs" by blast
    with res run brk2 show ?thesis by auto
  qed
qed

subsection \<open>\<open>skip_list_remove\<close>\<close>


lemma remove_spec:
  assumes "wf_sl h sl hs cs"
  shows "\<exists>A B. cs = A @ B \<and> (A = [] \<or> gt_func sl d (fst (last A))) \<and>
           (B = [] \<or> \<not> gt_func sl d (fst (hd B))) \<and>
           (if hit d B
            then \<exists>h' hs'. skip_list_remove h sl d =
                     Some (h', sl\<lparr>first_node := Some (last hs'), sl_size := sl_size sl - 1\<rparr>, 1) \<and>
                   well_formed h' hs' (A @ tl B) \<and> brk h' = brk h \<and>
                   (length hs' = 1 \<or> lvl (length hs' - 1) (A @ tl B) \<noteq> []) \<and>
                   (\<exists>n. hs' = take n hs)
            else skip_list_remove h sl d = Some (h, sl, 0))"
proof -
  from assms have wf: "well_formed h hs cs" and fn: "first_node sl = Some (last hs)"
    by (simp_all add: wf_sl_def)
  from probe [OF assms, of d] obtain A B where AB:
    "cs = A @ B" "A = [] \<or> gt_func sl d (fst (last A))" "B = [] \<or> \<not> gt_func sl d (fst (hd B))"
    "\<not> hit d B \<longrightarrow> skip_list_remove h sl d = Some (h, sl, 0)"
    "hit d B \<longrightarrow> skip_list_remove h sl d =
              do {
                h1 \<leftarrow> delete_node h (Some (snd (hd B) ! 0));
                (h2, fn) \<leftarrow> reduce_height h1 (first_node sl);
                Some (h2, sl\<lparr>first_node := fn, sl_size := sl_size sl - 1\<rparr>, 1)
              }"
    by blast
  show ?thesis
  proof (cases "hit d B")
    case False
    with AB show ?thesis by (simp del: lvl_append) blast
  next
    case True
    then obtain b B' where B: "B = b # B'" by (cases B) (auto simp: hit_def)
    obtain d' col where b: "b = (d', col)" by (cases b)
    from wf AB(1) B b have wfc: "well_formed h hs (A @ (d', col) # B')" by simp
    then have "col \<noteq> []" by (simp add: well_formed_def)
    with delete_column [OF wfc, of 0] obtain h1 where h1:
      "delete_node h (Some (col ! 0)) = Some h1" "wfx h1 hs A (d', []) B'" "brk h1 = brk h"
      by auto
    from h1(2) have wf1: "well_formed h1 hs (A @ B')" by (simp add: wfx_empty)
    from reduce_height_spec [OF wf1] obtain h' hs' where res:
      "reduce_height h1 (Some (last hs)) = Some (h', Some (last hs'))"
      "well_formed h' hs' (A @ B')" "brk h' = brk h1"
      "length hs' = 1 \<or> lvl (length hs' - 1) (A @ B') \<noteq> []" "\<exists>n. hs' = take n hs"
      by blast
    from AB(5) True have "skip_list_remove h sl d =
        Some (h', sl\<lparr>first_node := Some (last hs'), sl_size := sl_size sl - 1\<rparr>, 1)"
      by (simp add: B b h1(1) fn res(1))
    with res h1(3) True B have "\<exists>h' hs'. skip_list_remove h sl d =
                     Some (h', sl\<lparr>first_node := Some (last hs'), sl_size := sl_size sl - 1\<rparr>, 1) \<and>
                   well_formed h' hs' (A @ tl B) \<and> brk h' = brk h \<and>
                   (length hs' = 1 \<or> lvl (length hs' - 1) (A @ tl B) \<noteq> []) \<and>
                   (\<exists>n. hs' = take n hs)"
      by (intro exI [of _ h'] exI [of _ hs']) (simp del: lvl_append)
    with True AB(1-3) show ?thesis by (simp del: lvl_append) blast
  qed
qed

lemma top_header:
  assumes wf: "well_formed h hs cs"
  shows "\<exists>n. cells h (last hs) = Some n \<and> prev_node n = None \<and> prev_layer n = None \<and>
             next_node n = hdo (lvl (length hs - 1) cs) None \<and>
             next_layer n = (if length hs = 1 then None else Some (hs ! (length hs - 2)))"
proof -
  let ?k = "length hs - 1"
  from wf have ne: "hs \<noteq> []" by (simp add: well_formed_def)
  then have k: "?k < length hs" and last: "last hs = hs ! ?k" by (simp_all add: last_conv_nth)
  have hdr: "(0, hs) \<in> set ((0, hs) # cs)" "?k < length (snd (0::nat, hs))" using k by simp_all
  from wf_down [OF wf hdr] have nl: "fld next_layer h (hs ! ?k) = Some (if ?k = 0 then None else Some (hs ! (?k - 1)))"
    by simp
  from wf_up [OF wf hdr] ne have pl: "fld prev_layer h (hs ! ?k) = Some None" by simp
  from wf_horiz [OF wf k] lvl_full [OF k, of cs]
  have "fld prev_node h (hs ! ?k) = Some None" "fld next_node h (hs ! ?k) = Some (hdo (lvl ?k cs) None)"
    by simp_all
  with nl pl obtain n where "cells h (hs ! ?k) = Some n" "prev_node n = None" "prev_layer n = None"
    "next_node n = hdo (lvl ?k cs) None" "next_layer n = (if ?k = 0 then None else Some (hs ! (?k - 1)))"
    by (auto simp: fld_def)
  moreover have "(?k = 0) = (length hs = 1)" using ne by (cases hs) auto
  moreover have "?k - 1 = length hs - 2" by simp
  ultimately show ?thesis using last by auto
qed

text \<open>
  Claim C7. On a well-formed skip list \<open>skip_list_remove\<close> returns. When it returns 1
  the structure it leaves is well-formed with one column less, and its topmost header
  either has no level below it or has a forward neighbour: \<open>_reduce_height\<close> has
  discarded every empty topmost level. When the last element was removed, what remains is
  the header of level 0 alone, with no neighbour in any direction.
\<close>

theorem remove_collapses_height:
  assumes "wf_sl h sl hs cs"
  shows "\<exists>h' sl' r. skip_list_remove h sl d = Some (h', sl', r) \<and>
           (r = 1 \<longrightarrow>
             (\<exists>hs' cs'. wf_sl h' sl' hs' cs' \<and> length cs = Suc (length cs') \<and>
                top_nonempty_or_single h' sl' \<and>
                (length hs' = 1 \<or> lvl (length hs' - 1) cs' \<noteq> []) \<and>
                (cs' = [] \<longrightarrow> hs' = [hs ! 0] \<and> single_empty_level h' sl')))"
proof -
  from remove_spec [OF assms, of d] obtain A B where AB: "cs = A @ B"
    "if hit d B
     then \<exists>h' hs'. skip_list_remove h sl d =
              Some (h', sl\<lparr>first_node := Some (last hs'), sl_size := sl_size sl - 1\<rparr>, 1) \<and>
            well_formed h' hs' (A @ tl B) \<and> brk h' = brk h \<and>
            (length hs' = 1 \<or> lvl (length hs' - 1) (A @ tl B) \<noteq> []) \<and>
            (\<exists>n. hs' = take n hs)
     else skip_list_remove h sl d = Some (h, sl, 0)"
    by blast
  show ?thesis
  proof (cases "hit d B")
    case False
    with AB(2) show ?thesis by simp
  next
    case True
    let ?cs' = "A @ tl B"
    from True AB(2) obtain h' hs' where res:
      "skip_list_remove h sl d =
         Some (h', sl\<lparr>first_node := Some (last hs'), sl_size := sl_size sl - 1\<rparr>, 1)"
      "well_formed h' hs' ?cs'" "length hs' = 1 \<or> lvl (length hs' - 1) ?cs' \<noteq> []"
      "\<exists>n. hs' = take n hs"
      by auto
    let ?sl' = "sl\<lparr>first_node := Some (last hs'), sl_size := sl_size sl - 1\<rparr>"
    from True have "B \<noteq> []" by (auto simp: hit_def)
    then have len: "length cs = Suc (length ?cs')" using AB(1) by simp
    from top_header [OF res(2)] obtain n where n: "cells h' (last hs') = Some n"
      "prev_node n = None" "prev_layer n = None"
      "next_node n = hdo (lvl (length hs' - 1) ?cs') None"
      "next_layer n = (if length hs' = 1 then None else Some (hs' ! (length hs' - 2)))"
      by blast
    have "next_layer n = None \<or> next_node n \<noteq> None"
      using res(3) n(4,5) hdo_hd [of "lvl (length hs' - 1) ?cs'" None] by auto
    then have top: "top_nonempty_or_single h' ?sl'"
      using n(1) by (simp add: top_nonempty_or_single_def deref_Some)
    have single: "hs' = [hs ! 0] \<and> single_empty_level h' ?sl'" if "?cs' = []"
    proof -
      from that res(3) have l1: "length hs' = 1" by auto
      from res(4) obtain m where "hs' = take m hs" by blast
      with l1 have m: "0 < m" by (cases m) auto
      have "hs' = [hs' ! 0]" using l1 by (cases hs') auto
      with m \<open>hs' = take m hs\<close> have "hs' = [hs ! 0]" by simp
      moreover have "single_empty_level h' ?sl'"
        using n l1 that by (simp add: single_empty_level_def deref_Some del: lvl_append)
      ultimately show ?thesis ..
    qed
    have "wf_sl h' ?sl' hs' ?cs'" using res(2) by (simp add: wf_sl_def)
    with len top res(3) single
    have "wf_sl h' ?sl' hs' ?cs' \<and> length cs = Suc (length ?cs') \<and>
          top_nonempty_or_single h' ?sl' \<and>
          (length hs' = 1 \<or> lvl (length hs' - 1) ?cs' \<noteq> []) \<and>
          (?cs' = [] \<longrightarrow> hs' = [hs ! 0] \<and> single_empty_level h' ?sl')"
      by blast
    then have "\<exists>hs' cs'. wf_sl h' ?sl' hs' cs' \<and> length cs = Suc (length cs') \<and>
          top_nonempty_or_single h' ?sl' \<and>
          (length hs' = 1 \<or> lvl (length hs' - 1) cs' \<noteq> []) \<and>
          (cs' = [] \<longrightarrow> hs' = [hs ! 0] \<and> single_empty_level h' ?sl')"
      by blast
    with res(1) show ?thesis by blast
  qed
qed

lemma tall_wf: "wf_sl tall_heap tall_sl [2, 0] [(7, [1, 3])]"
  unfolding tall_heap_def tall_sl_def by (simp add: well_formed_defs)

theorem remove_collapses_height_witness:
  "wf_sl tall_heap tall_sl [2, 0] [(7, [1, 3])] \<and>
   map_option (snd \<circ> snd) (skip_list_remove tall_heap tall_sl 7) = Some 1 \<and>
   map_option (\<lambda>r. single_empty_level (fst r) (fst (snd r))) (skip_list_remove tall_heap tall_sl 7)
     = Some True \<and>
   map_option (\<lambda>r. first_node (fst (snd r))) (skip_list_remove tall_heap tall_sl 7) = Some (Some 2)"
proof -
  from remove_collapses_height [OF tall_wf, of 7] obtain h' sl' r where res:
    "skip_list_remove tall_heap tall_sl 7 = Some (h', sl', r)"
    "r = 1 \<longrightarrow>
       (\<exists>hs' cs'. wf_sl h' sl' hs' cs' \<and> length [(7::nat, [1::nat, 3])] = Suc (length cs') \<and>
          top_nonempty_or_single h' sl' \<and>
          (length hs' = 1 \<or> lvl (length hs' - 1) cs' \<noteq> []) \<and>
          (cs' = [] \<longrightarrow> hs' = [[2, 0] ! 0] \<and> single_empty_level h' sl'))"
    by blast
  have run: "map_option (snd \<circ> snd) (skip_list_remove tall_heap tall_sl 7) = Some 1"
    unfolding tall_heap_def tall_sl_def heap_of_def node_def by code_simp
  with res(1) have "r = 1" by simp
  with res(2) obtain hs' cs' where st: "wf_sl h' sl' hs' cs'" "length [(7::nat, [1::nat, 3])] = Suc (length cs')"
    "cs' = [] \<longrightarrow> hs' = [[2, 0] ! 0] \<and> single_empty_level h' sl'" by blast
  from st(2) have "cs' = []" by simp
  with st(3) have "hs' = [2]" "single_empty_level h' sl'" by simp_all
  moreover from st(1) \<open>hs' = [2]\<close> have "first_node sl' = Some 2" by (simp add: wf_sl_def)
  ultimately show ?thesis using tall_wf run res(1) by simp
qed

section \<open>Insertion\<close>

lemma wfx_bound: "wfx h hs A c B \<Longrightarrow> a \<in> set (hs @ addrs (A @ c # B)) \<Longrightarrow> a < brk h"
  by (simp add: wfx_def)

lemma wfxI:
  assumes "hs \<noteq> []" and "\<forall>x\<in>set (A @ B). snd x \<noteq> [] \<and> length (snd x) \<le> length hs"
    and "length (snd c) \<le> length hs" and "distinct (hs @ addrs (A @ c # B))"
    and "\<forall>a\<in>set (hs @ addrs (A @ c # B)). a < brk h"
    and "horiz h (length hs) ((0, hs) # A @ c # B)"
    and "\<And>x. x \<in> set ((0, hs) # A @ B) \<Longrightarrow> downs h x \<and> ups h x"
    and "downs h c"
  shows "wfx h hs A c B"
  unfolding wfx_def using assms by blast

lemma insert_level:
  assumes wx: "wfx h hs A (d, col) B" and k: "length col < length hs"
  shows "\<exists>h3. wfx h3 hs A (d, col @ [brk h]) B \<and> brk h3 = Suc (brk h) \<and>
           fld prev_layer h3 (brk h) = Some None \<and>
           insert_node h (r # rs) (Some (last (lvl (length col) ((0, hs) # A)))) (lasto None col) d =
             (if coin_flip r \<noteq> 0 then
                do {
                  (h4, temp_node) \<leftarrow> insert_node_climb h3 (Some (last (lvl (length col) ((0, hs) # A))));
                  t \<leftarrow> deref h4 temp_node;
                  (h5, rs', up) \<leftarrow> insert_node h4 rs (prev_layer t) (Some (brk h)) d;
                  h6 \<leftarrow> update h5 (Some (brk h)) (\<lambda>n. n\<lparr>prev_layer := up\<rparr>);
                  Some (h6, rs', Some (brk h))
                }
              else Some (h3, rs, Some (brk h)))"
proof -
  let ?k = "length col"
  let ?n = "brk h"
  let ?full = "(0, hs) # A @ (d, col) # B"
  let ?full' = "(0, hs) # A @ (d, col @ [?n]) # B"
  let ?X = "lvl ?k ((0, hs) # A)"
  let ?Y = "lvl ?k B"
  from wfx_distinct [OF wx] have dist: "distinct (addrs ?full)" .
  have lk: "lvl ?k ?full = ?X @ ?Y" by (rule lvl_grow_at(2))
  from lvl_hdrA_ne [OF k] obtain X' p where X: "?X = X' @ [p]"
    by (metis append_butlast_last_id)
  then have lastX: "last ?X = p" by simp
  from wfx_horiz [OF wx k] have chB: "chainB (fld prev_node h) None (X' @ p # ?Y)"
    and chF: "chainF (fld next_node h) (X' @ p # ?Y) None"
    unfolding lk X by simp_all
  from distinct_lvl [OF dist, of ?k] have dk: "distinct (X' @ p # ?Y)" unfolding lk X by simp
  have in_full: "\<And>x. x \<in> set (X' @ p # ?Y) \<Longrightarrow> x \<in> set (addrs ?full)"
    using lvl_subset [of _ ?k ?full] unfolding lk X by simp
  have fresh: "\<And>x. x \<in> set (addrs ?full) \<Longrightarrow> x \<noteq> ?n"
    using wfx_bound [OF wx] by fastforce
  have fresh_k: "\<And>x. x \<in> set (X' @ p # ?Y) \<Longrightarrow> x \<noteq> ?n"
    using in_full fresh by blast
  from chF have np: "fld next_node h p = Some (hdo ?Y None)" by simp
  then obtain c where c: "cells h p = Some c" "next_node c = hdo ?Y None" by (auto simp: fld_def)
  from np have lp: "live h p" by (rule fld_live)
  have pn: "p \<noteq> ?n" using fresh_k by simp
  define rec where "rec = \<lparr>prev_node = Some p, next_node = hdo ?Y None, prev_layer = None,
      next_layer = lasto None col, data = d\<rparr>"
  let ?h1 = "new h rec"
  let ?h2 = "upd ?h1 p (next_node_update (\<lambda>_. Some ?n))"
  have l1: "live ?h1 p" using lp by simp
  have n2: "cells ?h2 ?n = Some rec" using pn by (simp add: upd_def new_def)
  define h3 where "h3 = (case ?Y of [] \<Rightarrow> ?h2 | y # _ \<Rightarrow> upd ?h2 y (prev_node_update (\<lambda>_. Some ?n)))"
  have step3: "(case hdo ?Y None of None \<Rightarrow> Some ?h2
        | Some nx \<Rightarrow> update ?h2 (Some nx) (\<lambda>n. n\<lparr>prev_node := Some ?n\<rparr>)) = Some h3"
  proof (cases ?Y)
    case Nil
    then show ?thesis by (simp add: h3_def)
  next
    case (Cons y Y')
    with chB have "fld prev_node h y = Some (Some p)" by simp
    then have "live ?h2 y" by (simp add: fld_live)
    then show ?thesis using Cons by (simp add: h3_def update_live)
  qed
  have rn: "next_node rec = hdo ?Y None" by (simp add: rec_def)
  have run: "insert_node h (r # rs) (Some (last ?X)) (lasto None col) d =
             (if coin_flip r \<noteq> 0 then
                do {
                  (h4, temp_node) \<leftarrow> insert_node_climb h3 (Some (last ?X));
                  t \<leftarrow> deref h4 temp_node;
                  (h5, rs', up) \<leftarrow> insert_node h4 rs (prev_layer t) (Some ?n) d;
                  h6 \<leftarrow> update h5 (Some ?n) (\<lambda>n. n\<lparr>prev_layer := up\<rparr>);
                  Some (h6, rs', Some ?n)
                }
              else Some (h3, rs, Some ?n))"
    unfolding lastX
    by (simp add: deref_Some c malloc_new rec_def [symmetric] update_live [OF l1] n2 rn step3)
  have brk3: "brk h3 = Suc ?n" by (cases ?Y) (simp_all add: h3_def)
  have NN: "\<And>x. fld next_node h3 x =
      (if x = p then Some (Some ?n) else if x = ?n then Some (hdo ?Y None) else fld next_node h x)"
    using np pn by (cases ?Y) (simp_all add: h3_def rec_def)
  have PN: "\<And>x. fld prev_node h3 x =
      (if ?Y \<noteq> [] \<and> x = hd ?Y then Some (Some ?n)
       else if x = ?n then Some (Some p) else fld prev_node h x)"
  proof -
    fix x
    show "fld prev_node h3 x =
      (if ?Y \<noteq> [] \<and> x = hd ?Y then Some (Some ?n)
       else if x = ?n then Some (Some p) else fld prev_node h x)"
    proof (cases ?Y)
      case Nil
      then show ?thesis by (simp add: h3_def rec_def)
    next
      case (Cons y Y')
      with chB have "fld prev_node h y = Some (Some p)" by simp
      moreover have "y \<noteq> ?n" using fresh_k Cons by simp
      ultimately show ?thesis using Cons by (simp add: h3_def rec_def)
    qed
  qed
  have OT: "\<And>x. fld prev_layer h3 x = (if x = ?n then Some None else fld prev_layer h x)"
    "\<And>x. fld next_layer h3 x = (if x = ?n then Some (lasto None col) else fld next_layer h x)"
    "\<And>x. fld data h3 x = (if x = ?n then Some d else fld data h x)"
    by (cases ?Y; simp add: h3_def rec_def)+
  have k_lvl: "p \<in> set (lvl ?k ?full)" "?Y \<noteq> [] \<Longrightarrow> hd ?Y \<in> set (lvl ?k ?full)"
    unfolding lk X by simp_all
  have other: "x \<noteq> ?n \<and> x \<noteq> p \<and> (?Y \<noteq> [] \<longrightarrow> x \<noteq> hd ?Y)"
    if "x \<in> set (lvl l ?full)" "l \<noteq> ?k" for x l
    using lvl_disjoint [OF dist that(1)] k_lvl that(2) fresh [OF lvl_subset [OF that(1)]] by blast
  have horiz': "horiz h3 (length hs) ?full'"
    unfolding horiz_def
  proof (intro allI impI)
    fix l assume l: "l < length hs"
    show "chainB (fld prev_node h3) None (lvl l ?full') \<and> chainF (fld next_node h3) (lvl l ?full') None"
    proof (cases "l = ?k")
      case True
      have "chainF (fld next_node h3) ((X' @ [p]) @ ?n # ?Y) None"
      proof (rule chainF_insert [where F = "fld next_node h"])
        show "chainF (fld next_node h) ((X' @ [p]) @ ?Y) None" using chF by simp
        show "fld next_node h3 ?n = Some (hdo ?Y None)" using pn by (simp add: NN)
        show "fld next_node h3 (last (X' @ [p])) = Some (Some ?n)" by (simp add: NN)
        show "fld next_node h3 x = fld next_node h x" if "x \<in> set (butlast (X' @ [p])) \<union> set ?Y" for x
          using that dk fresh_k [of x] by (auto simp: NN)
      qed
      moreover have "chainB (fld prev_node h3) None ((X' @ [p]) @ ?n # ?Y)"
      proof (rule chainB_insert [where B = "fld prev_node h"])
        show "chainB (fld prev_node h) None ((X' @ [p]) @ ?Y)" using chB by simp
        show "fld prev_node h3 ?n = Some (lasto None (X' @ [p]))"
          using fresh_k by (cases ?Y) (auto simp: PN)
        show "fld prev_node h3 (hd ?Y) = Some (Some ?n)" if "?Y \<noteq> []"
          using that by (simp add: PN)
        show "fld prev_node h3 x = fld prev_node h x" if "x \<in> set (X' @ [p]) \<union> set (tl ?Y)" for x
          using that dk fresh_k [of x] by (cases ?Y) (auto simp: PN)
      qed
      ultimately show ?thesis unfolding True lvl_grow_at(1) X by simp
    next
      case False
      have same: "lvl l ?full' = lvl l ?full" using lvl_grow_full [OF False] by simp
      have "(chainB (fld prev_node h3) None (lvl l ?full) \<and> chainF (fld next_node h3) (lvl l ?full) None) =
            (chainB (fld prev_node h) None (lvl l ?full) \<and> chainF (fld next_node h) (lvl l ?full) None)"
      proof (rule level_cong)
        fix x assume "x \<in> set (lvl l ?full)"
        from other [OF this False]
        show "fld prev_node h3 x = fld prev_node h x" "fld next_node h3 x = fld next_node h x"
          by (auto simp: PN NN)
      qed
      with wfx_horiz [OF wx l] same show ?thesis by simp
    qed
  qed
  have reg: "downs h3 x \<and> ups h3 x" if "x \<in> set ((0, hs) # A @ B)" for x
  proof -
    have "set (snd x) \<subseteq> set (addrs ?full)" using that by (auto simp: set_addrs)
    then have "?n \<notin> set (snd x)" using fresh by blast
    then have "downs h3 x = downs h x" "ups h3 x = ups h x"
      by (auto intro!: downs_cong ups_cong simp: OT)
    with wfx_reg [OF wx that] show ?thesis by simp
  qed
  have n_col: "?n \<notin> set col" using fresh by auto
  have down': "downs h3 (d, col @ [?n])"
  proof -
    have "downs h3 (d, col) = downs h (d, col)"
      using n_col by (auto intro!: downs_cong simp: OT)
    with wfx_special [OF wx] have "downs h3 (d, col)" by simp
    then show ?thesis by (simp add: downs_def OT)
  qed
  have n_fresh: "?n \<notin> set (hs @ addrs (A @ (d, col) # B))" using fresh by auto
  from wx have st: "hs \<noteq> []" "\<forall>x\<in>set (A @ B). snd x \<noteq> [] \<and> length (snd x) \<le> length hs"
    "distinct (hs @ addrs (A @ (d, col) # B))"
    "\<forall>a\<in>set (hs @ addrs (A @ (d, col) # B)). a < brk h"
    by (simp_all add: wfx_def)
  have "distinct (hs @ addrs (A @ (d, col @ [?n]) # B))" using st(3) n_fresh by auto
  moreover have "\<forall>a\<in>set (hs @ addrs (A @ (d, col @ [?n]) # B)). a < brk h3"
    using st(4) unfolding brk3 by (auto simp: less_Suc_eq)
  moreover have "length (snd (d, col @ [?n])) \<le> length hs" using k by simp
  ultimately have "wfx h3 hs A (d, col @ [?n]) B"
    using st(1,2) horiz' reg down' by (intro wfxI) blast+
  moreover have "fld prev_layer h3 ?n = Some None" by (simp add: OT)
  ultimately show ?thesis using brk3 run by blast
qed

subsection \<open>The walk to the left and up\<close>


lemma wfx_col_up:
  assumes wx: "wfx h hs A c B" and x: "x \<in> set ((0, hs) # A @ B)" and k: "k < length (snd x)"
  shows "fld prev_layer h (snd x ! k) = Some (if Suc k < length (snd x) then Some (snd x ! Suc k) else None)"
  using wfx_reg [OF wx x] k unfolding ups_def by (meson chainF_nth)

lemma wfx_col_down:
  assumes wx: "wfx h hs A c B" and x: "x \<in> set ((0, hs) # A @ B)" and k: "k < length (snd x)"
  shows "fld next_layer h (snd x ! k) = Some (if k = 0 then None else Some (snd x ! (k - 1)))"
  using wfx_reg [OF wx x] k unfolding downs_def by (meson chainB_nth)

lemma lvl_snoc:
  "lvl k (A @ [c]) = (if k < length (snd c) then lvl k A @ [snd c ! k] else lvl k A)"
  by (simp add: lvl_single)

lemma climb_stop:
  "cells h a = Some n \<Longrightarrow> prev_layer n \<noteq> None \<Longrightarrow> insert_node_climb h (Some a) = Some (h, Some a)"
  by (subst insert_node_climb.simps) (simp add: deref_Some)

lemma climb_left:
  "cells h a = Some n \<Longrightarrow> prev_layer n = None \<Longrightarrow> prev_node n = Some b \<Longrightarrow>
   insert_node_climb h (Some a) = insert_node_climb h (Some b)"
  by (subst insert_node_climb.simps) (simp add: deref_Some)

lemma climb_walk:
  assumes wx: "wfx h hs A0 c B0" and k: "k < length hs"
  shows "A0 = A @ R \<Longrightarrow>
     (if lvl (Suc k) A \<noteq> []
      then \<exists>t. insert_node_climb h (Some (last (lvl k ((0, hs) # A)))) = Some (h, Some t) \<and>
               fld prev_layer h t = Some (Some (last (lvl (Suc k) A)))
      else insert_node_climb h (Some (last (lvl k ((0, hs) # A)))) =
           insert_node_climb h (Some (hs ! k)))"
proof (induction A arbitrary: R rule: rev_induct)
  case Nil
  then show ?case using k by (simp add: lvl_Cons)
next
  case (snoc c' A)
  then have A0: "A0 = A @ (c' # R)" by simp
  note IH = snoc.IH [OF A0]
  have hA: "lvl k ((0, hs) # A @ [c']) = lvl k ((0, hs) # A) @ lvl k [c']"
    using lvl_append [of k "(0, hs) # A" "[c']"] by simp
  show ?case
  proof (cases "k < length (snd c')")
    case False
    then have "lvl k ((0, hs) # A @ [c']) = lvl k ((0, hs) # A)" "lvl (Suc k) (A @ [c']) = lvl (Suc k) A"
      by (simp_all add: hA lvl_single)
    with IH show ?thesis by simp
  next
    case True
    let ?a = "snd c' ! k"
    have last_a: "last (lvl k ((0, hs) # A @ [c'])) = ?a" using True by (simp add: hA lvl_single)
    have mem: "c' \<in> set ((0, hs) # A0 @ B0)" using A0 by simp
    from wfx_col_up [OF wx mem True]
    have up: "fld prev_layer h ?a = Some (if Suc k < length (snd c') then Some (snd c' ! Suc k) else None)" .
    then obtain n where n: "cells h ?a = Some n"
      "prev_layer n = (if Suc k < length (snd c') then Some (snd c' ! Suc k) else None)"
      by (auto simp: fld_def)
    show ?thesis
    proof (cases "Suc k < length (snd c')")
      case True
      then have "insert_node_climb h (Some ?a) = Some (h, Some ?a)"
        using climb_stop [OF n(1)] n(2) by simp
      moreover have "lvl (Suc k) (A @ [c']) \<noteq> []" "last (lvl (Suc k) (A @ [c'])) = snd c' ! Suc k"
        using True by (simp_all add: lvl_single)
      ultimately show ?thesis using up True last_a by simp
    next
      case False
      have split: "lvl k ((0, hs) # A0 @ c # B0) = lvl k ((0, hs) # A) @ ?a # lvl k (R @ c # B0)"
        using lvl_append [of k "(0, hs) # A" "c' # R @ c # B0"] True
        unfolding A0 by (simp add: lvl_Cons)
      from wfx_horiz [OF wx k] have "chainB (fld prev_node h) None (lvl k ((0, hs) # A) @ ?a # lvl k (R @ c # B0))"
        unfolding split by simp
      then have "fld prev_node h ?a = Some (lasto None (lvl k ((0, hs) # A)))" by simp
      then have "fld prev_node h ?a = Some (Some (last (lvl k ((0, hs) # A))))"
        using lasto_last [OF lvl_hdrA_ne [OF k]] by simp
      with n(1) have pn: "prev_node n = Some (last (lvl k ((0, hs) # A)))" by (simp add: fld_def)
      from n(2) False have "prev_layer n = None" by simp
      from climb_left [OF n(1) this pn]
      have "insert_node_climb h (Some ?a) = insert_node_climb h (Some (last (lvl k ((0, hs) # A))))" .
      moreover have "lvl (Suc k) (A @ [c']) = lvl (Suc k) A" using False by (simp add: lvl_single)
      ultimately show ?thesis using IH last_a by simp
    qed
  qed
qed

lemma climb_found:
  assumes wx: "wfx h hs A c B" and k: "Suc k < length hs"
  shows "\<exists>t n. insert_node_climb h (Some (last (lvl k ((0, hs) # A)))) = Some (h, Some t) \<and>
           cells h t = Some n \<and> prev_layer n = Some (last (lvl (Suc k) ((0, hs) # A)))"
proof -
  from k have k': "k < length hs" by simp
  have top: "lvl (Suc k) ((0, hs) # A) = hs ! Suc k # lvl (Suc k) A" using k by (simp add: lvl_Cons)
  show ?thesis
  proof (cases "lvl (Suc k) A = []")
    case False
    with climb_walk [OF wx k', of A "[]"] obtain t where
      "insert_node_climb h (Some (last (lvl k ((0, hs) # A)))) = Some (h, Some t)"
      "fld prev_layer h t = Some (Some (last (lvl (Suc k) A)))" by auto
    moreover have "last (lvl (Suc k) ((0, hs) # A)) = last (lvl (Suc k) A)" using False top by simp
    ultimately show ?thesis by (auto simp: fld_def)
  next
    case True
    with climb_walk [OF wx k', of A "[]"]
    have "insert_node_climb h (Some (last (lvl k ((0, hs) # A)))) = insert_node_climb h (Some (hs ! k))"
      by simp
    moreover have "(0, hs) \<in> set ((0, hs) # A @ B)" "k < length (snd (0::nat, hs))" using k by simp_all
    from wfx_col_up [OF wx this] k have "fld prev_layer h (hs ! k) = Some (Some (hs ! Suc k))" by simp
    then obtain n where n: "cells h (hs ! k) = Some n" "prev_layer n = Some (hs ! Suc k)"
      by (auto simp: fld_def)
    moreover from climb_stop [OF n(1)] n(2) have "insert_node_climb h (Some (hs ! k)) = Some (h, Some (hs ! k))"
      by simp
    moreover have "last (lvl (Suc k) ((0, hs) # A)) = hs ! Suc k" using True top by simp
    ultimately show ?thesis by auto
  qed
qed

subsection \<open>A new level\<close>


lemma wfx_short: "wfx h hs A c B \<Longrightarrow> x \<in> set (A @ c # B) \<Longrightarrow> length (snd x) \<le> length hs"
  by (auto simp: wfx_def)

lemma lvl_above: "\<forall>x\<in>set C. length (snd x) \<le> k \<Longrightarrow> lvl k C = []"
  by (auto simp: lvl_def filter_empty_conv)

lemma climb_new:
  assumes wx: "wfx h (H @ [T]) A c B"
  shows "\<exists>h5 n. insert_node_climb h (Some (last (lvl (length H) ((0, H @ [T]) # A)))) =
                  Some (h5, Some (brk h)) \<and>
           wfx h5 (H @ [brk h, T]) A c B \<and> brk h5 = Suc (brk h) \<and>
           cells h5 (brk h) = Some n \<and> prev_layer n = Some T"
proof -
  let ?hs = "H @ [T]"
  let ?hs' = "H @ [brk h, T]"
  let ?k = "length H"
  let ?N = "brk h"
  let ?C = "A @ c # B"
  let ?full = "(0, ?hs) # ?C"
  let ?full' = "(0, ?hs') # ?C"
  define L where "L = lvl ?k ?C"
  have k: "?k < length ?hs" by simp
  from wfx_distinct [OF wx] have dist: "distinct (addrs ?full)" .
  have short: "\<forall>x\<in>set ?C. length (snd x) \<le> Suc ?k" using wfx_short [OF wx] by simp
  then have "\<forall>x\<in>set A. length (snd x) \<le> Suc ?k" by simp
  then have noA: "lvl (Suc ?k) A = []" by (rule lvl_above)
  from short have noC: "lvl (Suc ?k) ?C = []" by (rule lvl_above)
  from climb_walk [OF wx k, of A "[]"] noA
  have walk: "insert_node_climb h (Some (last (lvl ?k ((0, ?hs) # A)))) = insert_node_climb h (Some T)"
    by simp
  have hdr: "(0, ?hs) \<in> set ((0, ?hs) # A @ B)" "?k < length (snd (0::nat, ?hs))" by simp_all
  from wfx_col_up [OF wx hdr] have plT: "fld prev_layer h T = Some None" by simp
  from wfx_col_down [OF wx hdr] have nlT: "fld next_layer h T = Some (lasto None H)"
    by (cases "H = []") (simp_all add: lasto_last last_conv_nth nth_append)
  have lk: "lvl ?k ?full = T # L" using lvl_full [OF k, of ?C] by (simp add: L_def)
  from wfx_horiz [OF wx k] have chB: "chainB (fld prev_node h) None (T # L)"
    and chF: "chainF (fld next_node h) (T # L) None" unfolding lk by simp_all
  then have pnT: "fld prev_node h T = Some None" and nnT: "fld next_node h T = Some (hdo L None)"
    by simp_all
  from pnT obtain t where t: "cells h T = Some t" by (auto simp: fld_def)
  with plT nlT pnT nnT have tf: "prev_layer t = None" "next_layer t = lasto None H"
    "prev_node t = None" "next_node t = hdo L None" by (simp_all add: fld_def)
  have fresh: "\<And>x. x \<in> set (addrs ?full) \<Longrightarrow> x \<noteq> ?N"
    using wfx_bound [OF wx] by fastforce
  have TN: "T \<noteq> ?N" using fresh by simp
  have lastN: "H \<noteq> [] \<Longrightarrow> last H \<noteq> ?N"
    using fresh [of "last H"] last_in_set [of H] by simp
  from distinct_lvl [OF dist, of ?k] have dk: "distinct (T # L)" unfolding lk by simp
  have L_full: "\<And>x. x \<in> set L \<Longrightarrow> x \<in> set (addrs ?full)"
    using lvl_subset [of _ ?k ?C] by (simp add: L_def)
  from wx have dhs: "distinct (H @ [T])" by (simp add: wfx_def)
  from wfx_reg [OF wx hdr(1)] have chN: "chainB (fld next_layer h) None (H @ [T])"
    and chP: "chainF (fld prev_layer h) (H @ [T]) None"
    and dataH: "\<forall>a\<in>set (H @ [T]). fld data h a = Some 0"
    by (simp_all add: downs_def ups_def)
  define rec where "rec = \<lparr>prev_node = None, next_node = hdo L None, prev_layer = Some T,
      next_layer = lasto None H, data = 0\<rparr>"
  let ?h1 = "new h rec"
  have t1: "cells ?h1 T = Some t" using TN by (simp add: new_def t)
  define h2 where "h2 = (case L of [] \<Rightarrow> ?h1 | y # _ \<Rightarrow> upd ?h1 y (prev_node_update (\<lambda>_. Some ?N)))"
  have step2: "(case hdo L None of None \<Rightarrow> Some ?h1
        | Some nx \<Rightarrow> update ?h1 (Some nx) (\<lambda>n. n\<lparr>prev_node := Some ?N\<rparr>)) = Some h2"
  proof (cases L)
    case Nil
    then show ?thesis by (simp add: h2_def)
  next
    case (Cons y Y')
    with chB have "fld prev_node h y = Some (Some T)" by simp
    then have "live ?h1 y" by (simp add: fld_live)
    then show ?thesis using Cons by (simp add: h2_def update_live)
  qed
  have t2: "cells h2 T = Some t"
  proof (cases L)
    case Nil
    then show ?thesis by (simp add: h2_def t1)
  next
    case (Cons y Y')
    with dk have "y \<noteq> T" by auto
    then show ?thesis using Cons by (simp add: h2_def upd_def t1)
  qed
  define h3 where "h3 = (case lasto None H of None \<Rightarrow> h2
      | Some q \<Rightarrow> upd h2 q (prev_layer_update (\<lambda>_. Some ?N)))"
  have lastH: "H \<noteq> [] \<Longrightarrow> lasto None H = Some (last H)" by (rule lasto_last)
  have liveH: "\<And>q. q \<in> set H \<Longrightarrow> live h2 q"
  proof -
    fix q assume "q \<in> set H"
    with dataH have "live h q" by (auto dest: fld_live)
    then show "live h2 q" by (cases L) (simp_all add: h2_def)
  qed
  have step3: "(case lasto None H of None \<Rightarrow> Some h2
        | Some nl \<Rightarrow> update h2 (Some nl) (\<lambda>n. n\<lparr>prev_layer := Some ?N\<rparr>)) = Some h3"
  proof (cases "H = []")
    case True
    then show ?thesis by (simp add: h3_def)
  next
    case False
    with liveH have "live h2 (last H)" by simp
    then show ?thesis using False by (simp add: h3_def lastH update_live)
  qed
  have l3: "live h3 T"
  proof -
    have "live h2 T" by (simp add: live_def t2)
    then show ?thesis by (cases "H = []") (simp_all add: h3_def lastH)
  qed
  define h5 where "h5 = upd (upd h3 T (next_node_update (\<lambda>_. None))) T (next_layer_update (\<lambda>_. Some ?N))"
  have l4: "live (upd h3 T (next_node_update (\<lambda>_. None))) T" using l3 by simp
  have rn: "next_node rec = hdo L None" "next_layer rec = lasto None H" by (simp_all add: rec_def)
  have run: "insert_node_climb h (Some T) = Some (h5, Some ?N)"
    by (subst insert_node_climb.simps)
      (simp add: deref_Some t tf malloc_new rec_def [symmetric] t1 step2 t2 step3
        update_live [OF l3] update_live [OF l4] h5_def)
  have brk5: "brk h5 = Suc ?N"
    by (cases L; cases "H = []") (simp_all add: h5_def h3_def h2_def lastH)
  have NN: "\<And>x. fld next_node h5 x =
      (if x = T then Some None else if x = ?N then Some (hdo L None) else fld next_node h x)"
    using nnT TN by (cases L; cases "H = []") (simp_all add: h5_def h3_def h2_def rec_def lastH)
  have NL: "\<And>x. fld next_layer h5 x =
      (if x = T then Some (Some ?N) else if x = ?N then Some (lasto None H) else fld next_layer h x)"
    using nlT TN by (cases L; cases "H = []") (simp_all add: h5_def h3_def h2_def rec_def lastH)
  have DT: "\<And>x. fld data h5 x = (if x = ?N then Some 0 else fld data h x)"
    by (cases L; cases "H = []") (simp_all add: h5_def h3_def h2_def rec_def lastH)
  have PN: "\<And>x. fld prev_node h5 x =
      (if L \<noteq> [] \<and> x = hd L then Some (Some ?N)
       else if x = ?N then Some None else fld prev_node h x)"
  proof -
    fix x
    show "fld prev_node h5 x =
      (if L \<noteq> [] \<and> x = hd L then Some (Some ?N)
       else if x = ?N then Some None else fld prev_node h x)"
    proof (cases L)
      case Nil
      then show ?thesis by (cases "H = []") (simp_all add: h5_def h3_def h2_def rec_def lastH)
    next
      case (Cons y Y')
      with chB have "fld prev_node h y = Some (Some T)" by simp
      moreover have "y \<noteq> ?N" using fresh [OF L_full] Cons by simp
      ultimately show ?thesis using Cons
        by (cases "H = []") (simp_all add: h5_def h3_def h2_def rec_def lastH)
    qed
  qed
  have PL: "\<And>x. fld prev_layer h5 x =
      (if H \<noteq> [] \<and> x = last H then Some (Some ?N)
       else if x = ?N then Some (Some T) else fld prev_layer h x)"
  proof -
    fix x
    show "fld prev_layer h5 x =
      (if H \<noteq> [] \<and> x = last H then Some (Some ?N)
       else if x = ?N then Some (Some T) else fld prev_layer h x)"
    proof (cases "H = []")
      case True
      then show ?thesis by (cases L) (simp_all add: h5_def h3_def h2_def rec_def lastH)
    next
      case False
      from False obtain H' q where Hq: "H = H' @ [q]" by (metis append_butlast_last_id)
      from chP have "fld prev_layer h (last H) = Some (Some T)" unfolding Hq by simp
      moreover have "last H \<noteq> ?N" using lastN False by simp
      ultimately show ?thesis using False
        by (cases L) (simp_all add: h5_def h3_def h2_def rec_def lastH)
    qed
  qed
  have cN: "\<exists>n. cells h5 ?N = Some n \<and> prev_layer n = Some T"
  proof -
    have "fld prev_layer h5 ?N = Some (Some T)" using lastN by (auto simp: PL)
    then show ?thesis by (auto simp: fld_def)
  qed
  have lvl_same: "lvl l ?full' = lvl l ?full" if "l < ?k" for l
    using that by (simp add: lvl_Cons nth_append)
  have below_k: "x \<noteq> T \<and> x \<noteq> ?N \<and> (L \<noteq> [] \<longrightarrow> x \<noteq> hd L)"
    if "x \<in> set (lvl l ?full)" "l < ?k" for x l
  proof -
    have "T \<in> set (lvl ?k ?full)" "L \<noteq> [] \<Longrightarrow> hd L \<in> set (lvl ?k ?full)"
      unfolding lk by simp_all
    with lvl_disjoint [OF dist that(1)] that(2) fresh [OF lvl_subset [OF that(1)]]
    show ?thesis by blast
  qed
  have horiz': "horiz h5 (length ?hs') ?full'"
    unfolding horiz_def
  proof (intro allI impI)
    fix l assume l: "l < length ?hs'"
    then consider "l < ?k" | "l = ?k" | "l = Suc ?k" by force
    then show "chainB (fld prev_node h5) None (lvl l ?full') \<and> chainF (fld next_node h5) (lvl l ?full') None"
    proof cases
      case 1
      have "(chainB (fld prev_node h5) None (lvl l ?full) \<and> chainF (fld next_node h5) (lvl l ?full) None) =
            (chainB (fld prev_node h) None (lvl l ?full) \<and> chainF (fld next_node h) (lvl l ?full) None)"
      proof (rule level_cong)
        fix x assume "x \<in> set (lvl l ?full)"
        from below_k [OF this 1]
        show "fld prev_node h5 x = fld prev_node h x" "fld next_node h5 x = fld next_node h x"
          by (auto simp: PN NN)
      qed
      moreover have "l < length ?hs" using 1 by simp
      ultimately show ?thesis using wfx_horiz [OF wx, of l] lvl_same [OF 1] by simp
    next
      case 2
      have lN: "lvl ?k ?full' = ?N # L" by (simp add: lvl_Cons nth_append L_def)
      have "chainF (fld next_node h5) L None = chainF (fld next_node h) L None"
      proof (rule chainF_cong)
        fix x assume "x \<in> set L"
        with dk fresh [OF L_full] have "x \<noteq> T" "x \<noteq> ?N" by auto
        then show "fld next_node h5 x = fld next_node h x" by (simp add: NN)
      qed
      with chF TN have F: "chainF (fld next_node h5) (?N # L) None" by (simp add: NN)
      have "chainB (fld prev_node h5) None (?N # L)"
      proof (cases L)
        case Nil
        then show ?thesis by (simp add: PN)
      next
        case (Cons y Y')
        have "chainB (fld prev_node h5) (Some y) Y' = chainB (fld prev_node h) (Some y) Y'"
        proof (rule chainB_cong)
          fix x assume "x \<in> set Y'"
          with dk fresh [OF L_full, of x] Cons have "x \<noteq> y" "x \<noteq> ?N" by auto
          then show "fld prev_node h5 x = fld prev_node h x" using Cons by (simp add: PN)
        qed
        moreover have "y \<noteq> ?N" using fresh [OF L_full, of y] Cons by simp
        ultimately show ?thesis using chB Cons by (simp add: PN)
      qed
      with F show ?thesis unfolding 2 lN by simp
    next
      case 3
      have lT: "lvl (Suc ?k) ?full' = [T]" using noC by (simp add: lvl_Cons nth_append)
      have "T \<notin> set L" using dk by simp
      then have "fld prev_node h5 T = Some None" using pnT TN by (cases L) (auto simp: PN)
      then show ?thesis unfolding 3 lT by (simp add: NN)
    qed
  qed
  have N_H: "?N \<notin> set H" "T \<notin> set H" using fresh dhs by auto
  have hdr_down: "downs h5 (0, ?hs')"
  proof -
    have "chainB (fld next_layer h5) None (H @ ?N # [T])"
    proof (rule chainB_insert [where B = "fld next_layer h"])
      show "chainB (fld next_layer h) None (H @ [T])" by (rule chN)
      show "fld next_layer h5 ?N = Some (lasto None H)" using TN by (simp add: NL)
      show "fld next_layer h5 (hd [T]) = Some (Some ?N)" by (simp add: NL)
      show "fld next_layer h5 x = fld next_layer h x" if "x \<in> set H \<union> set (tl [T])" for x
        using that N_H by (auto simp: NL)
    qed
    moreover have "\<forall>a\<in>set ?hs'. fld data h5 a = Some 0" using dataH by (auto simp: DT)
    ultimately show ?thesis by (simp add: downs_def)
  qed
  have hdr_up: "ups h5 (0, ?hs')"
  proof -
    have "chainF (fld prev_layer h5) (H @ ?N # [T]) None"
    proof (rule chainF_insert [where F = "fld prev_layer h"])
      show "chainF (fld prev_layer h) (H @ [T]) None" by (rule chP)
      show "fld prev_layer h5 ?N = Some (hdo [T] None)" using lastN by (auto simp: PL)
      show "fld prev_layer h5 (last H) = Some (Some ?N)" if "H \<noteq> []" using that by (simp add: PL)
      show "fld prev_layer h5 x = fld prev_layer h x" if "x \<in> set (butlast H) \<union> set [T]" for x
      proof -
        have "H \<noteq> [] \<Longrightarrow> x \<noteq> last H"
        proof -
          assume "H \<noteq> []"
          then obtain H' q where Hq: "H = H' @ [q]" by (metis append_butlast_last_id)
          with that dhs show "x \<noteq> last H" by auto
        qed
        moreover have "x \<noteq> ?N" using that fresh [of x] TN by (auto dest: in_set_butlastD)
        ultimately show ?thesis by (auto simp: PL)
      qed
    qed
    then show ?thesis by (simp add: ups_def)
  qed
  have col_frame: "x \<noteq> T \<and> x \<noteq> ?N \<and> (H \<noteq> [] \<longrightarrow> x \<noteq> last H)"
    if x: "x \<in> set (addrs ?C)" for x
  proof -
    from dist have "set ?hs \<inter> set (addrs ?C) = {}" by simp
    with x have "x \<notin> set ?hs" by blast
    moreover have "H \<noteq> [] \<Longrightarrow> last H \<in> set ?hs" by simp
    moreover have "x \<noteq> ?N" using fresh x by simp
    ultimately show ?thesis by auto
  qed
  have reg: "downs h5 x \<and> ups h5 x" if "x \<in> set ((0, ?hs') # A @ B)" for x
  proof (cases "x = (0, ?hs')")
    case True
    with hdr_down hdr_up show ?thesis by simp
  next
    case False
    with that have xC: "x \<in> set (A @ B)" by simp
    then have sub: "set (snd x) \<subseteq> set (addrs ?C)" by (auto simp: set_addrs)
    have fr: "fld next_layer h5 a = fld next_layer h a \<and> fld data h5 a = fld data h a \<and>
              fld prev_layer h5 a = fld prev_layer h a" if "a \<in> set (snd x)" for a
    proof -
      from that sub have "a \<in> set (addrs ?C)" by blast
      from col_frame [OF this] show ?thesis by (auto simp: NL DT PL)
    qed
    then have "downs h5 x = downs h x" "ups h5 x = ups h x"
      by (auto intro!: downs_cong ups_cong)
    moreover have "x \<in> set ((0, ?hs) # A @ B)" using xC by simp
    ultimately show ?thesis using wfx_reg [OF wx] by blast
  qed
  have spec: "downs h5 c"
  proof -
    have "set (snd c) \<subseteq> set (addrs ?C)" by (auto simp: set_addrs)
    with col_frame have "\<And>a. a \<in> set (snd c) \<Longrightarrow> a \<noteq> T \<and> a \<noteq> ?N" by blast
    then have "downs h5 c = downs h c" by (auto intro!: downs_cong simp: NL DT)
    with wfx_special [OF wx] show ?thesis by simp
  qed
  from wx have st: "\<forall>x\<in>set (A @ B). snd x \<noteq> [] \<and> length (snd x) \<le> length ?hs"
    "length (snd c) \<le> length ?hs" "distinct (?hs @ addrs ?C)"
    "\<forall>a\<in>set (?hs @ addrs ?C). a < brk h"
    by (simp_all add: wfx_def)
  have "distinct (?hs' @ addrs ?C)" using st(3) fresh by auto
  moreover have "\<forall>a\<in>set (?hs' @ addrs ?C). a < brk h5"
    using st(4) unfolding brk5 by (auto simp: less_Suc_eq)
  moreover have "\<forall>x\<in>set (A @ B). snd x \<noteq> [] \<and> length (snd x) \<le> length ?hs'"
    using st(1) by fastforce
  moreover have "length (snd c) \<le> length ?hs'" using st(2) by simp
  moreover have "?hs' \<noteq> []" by simp
  ultimately have "wfx h5 ?hs' A c B"
    using horiz' reg spec by (intro wfxI) blast+
  with walk run brk5 cN show ?thesis by auto
qed

subsection \<open>The recursion of \<open>_insert_node\<close>\<close>


lemma climb_spec:
  assumes wx: "wfx h hs A c B" and k: "k < length hs"
  shows "\<exists>h4 hs4 t tn. insert_node_climb h (Some (last (lvl k ((0, hs) # A)))) = Some (h4, Some t) \<and>
           cells h4 t = Some tn \<and> prev_layer tn = Some (last (lvl (Suc k) ((0, hs4) # A))) \<and>
           wfx h4 hs4 A c B \<and> Suc k < length hs4 \<and> length hs4 = max (length hs) (Suc (Suc k)) \<and>
           last hs4 = last hs \<and> brk h \<le> brk h4"
proof (cases "Suc k < length hs")
  case True
  from climb_found [OF wx True] obtain t n where
    "insert_node_climb h (Some (last (lvl k ((0, hs) # A)))) = Some (h, Some t)"
    "cells h t = Some n" "prev_layer n = Some (last (lvl (Suc k) ((0, hs) # A)))" by blast
  with wx True show ?thesis by (intro exI [of _ h] exI [of _ hs]) auto
next
  case False
  with k have len: "length hs = Suc k" by simp
  then obtain H T where hs: "hs = H @ [T]" "length H = k"
    by (metis append_butlast_last_id length_butlast diff_Suc_1 list.size(3) nat.simps(3))
  from climb_new [OF wx [unfolded hs(1)]] hs(2) obtain h5 n where res:
    "insert_node_climb h (Some (last (lvl k ((0, H @ [T]) # A)))) = Some (h5, Some (brk h))"
    "wfx h5 (H @ [brk h, T]) A c B" "brk h5 = Suc (brk h)"
    "cells h5 (brk h) = Some n" "prev_layer n = Some T" by blast
  have "\<forall>x\<in>set A. length (snd x) \<le> Suc k" using wfx_short [OF wx] len by simp
  then have "lvl (Suc k) A = []" by (rule lvl_above)
  then have "last (lvl (Suc k) ((0, H @ [brk h, T]) # A)) = T"
    using hs(2) by (simp add: lvl_Cons nth_append)
  with res hs len show ?thesis
    by (intro exI [of _ h5] exI [of _ "H @ [brk h, T]"] exI [of _ "brk h"] exI [of _ n]) simp
qed

lemma wfx_upd_up:
  assumes wx: "wfx h hs A c B" and a: "a \<in> set (snd c)"
  shows "wfx (upd h a (prev_layer_update u)) hs A c B"
proof -
  let ?h' = "upd h a (prev_layer_update u)"
  have hz: "horiz ?h' (length hs) ((0, hs) # A @ c # B)"
    using wx by (simp add: wfx_def horiz_def)
  have dn: "\<And>x. downs ?h' x = downs h x" by (simp add: downs_def)
  have notin: "a \<notin> set (snd x)" if x: "x \<in> set ((0, hs) # A @ B)" for x
  proof
    assume ax: "a \<in> set (snd x)"
    from wfx_distinct [OF wx] a have d: "a \<notin> set hs" "a \<notin> set (addrs A)" "a \<notin> set (addrs B)"
      by auto
    from x ax have "a \<in> set hs \<or> a \<in> set (addrs A) \<or> a \<in> set (addrs B)"
      unfolding set_addrs by auto
    with d show False by blast
  qed
  have "downs ?h' x \<and> ups ?h' x" if "x \<in> set ((0, hs) # A @ B)" for x
  proof -
    have "ups ?h' x = ups h x"
      using notin [OF that] by (intro ups_cong) auto
    with wfx_reg [OF wx that] dn show ?thesis by simp
  qed
  moreover have "downs ?h' c" using wfx_special [OF wx] dn by simp
  moreover from wx have "hs \<noteq> []" "\<forall>x\<in>set (A @ B). snd x \<noteq> [] \<and> length (snd x) \<le> length hs"
    "length (snd c) \<le> length hs" "distinct (hs @ addrs (A @ c # B))"
    "\<forall>a\<in>set (hs @ addrs (A @ c # B)). a < brk ?h'"
    by (simp_all add: wfx_def)
  ultimately show ?thesis using hz by (intro wfxI) blast+
qed

lemma leading_heads_Cons:
  "leading_heads (r # rs) = (if coin_flip r \<noteq> 0 then Suc (leading_heads rs) else 0)"
  by (simp add: leading_heads_def)

lemma insert_node_spec:
  assumes "\<exists>r\<in>set rs. coin_flip r = 0"
  shows "wfx h hs A (d, col) B \<Longrightarrow> length col < length hs \<Longrightarrow>
     \<exists>h' hs' col'.
        insert_node h rs (Some (last (lvl (length col) ((0, hs) # A)))) (lasto None col) d =
          Some (h', drop (Suc (leading_heads rs)) rs, Some (brk h)) \<and>
        wfx h' hs' A (d, col @ col') B \<and> chainF (fld prev_layer h') col' None \<and>
        hd col' = brk h \<and> length col' = Suc (leading_heads rs) \<and>
        length hs' = max (length hs) (length col + length col') \<and>
        last hs' = last hs \<and> brk h \<le> brk h'"
  using assms
proof (induction rs arbitrary: h hs col)
  case Nil
  then show ?case by simp
next
  case (Cons r rs)
  let ?k = "length col"
  let ?n = "brk h"
  let ?p = "last (lvl ?k ((0, hs) # A))"
  note wx = Cons.prems(1) and k = Cons.prems(2)
  from insert_level [OF wx k, of r rs] obtain h3 where h3:
    "wfx h3 hs A (d, col @ [?n]) B" "brk h3 = Suc ?n" "fld prev_layer h3 ?n = Some None"
    "insert_node h (r # rs) (Some ?p) (lasto None col) d =
       (if coin_flip r \<noteq> 0 then
          do {
            (h4, temp_node) \<leftarrow> insert_node_climb h3 (Some ?p);
            t \<leftarrow> deref h4 temp_node;
            (h5, rs', up) \<leftarrow> insert_node h4 rs (prev_layer t) (Some ?n) d;
            h6 \<leftarrow> update h5 (Some ?n) (\<lambda>n. n\<lparr>prev_layer := up\<rparr>);
            Some (h6, rs', Some ?n)
          }
        else Some (h3, rs, Some ?n))"
    by blast
  show ?case
  proof (cases "coin_flip r = 0")
    case True
    with h3 k show ?thesis
      apply (rule_tac x = h3 in exI)
      apply (rule_tac x = hs in exI)
      apply (rule_tac x = "[brk h]" in exI)
      apply (simp add: leading_heads_Cons del: insert_node.simps)
      done
  next
    case False
    with Cons.prems(3) have tails: "\<exists>r\<in>set rs. coin_flip r = 0" by auto
    from climb_spec [OF h3(1) k] obtain h4 hs4 t tn where cl:
      "insert_node_climb h3 (Some ?p) = Some (h4, Some t)"
      "cells h4 t = Some tn" "prev_layer tn = Some (last (lvl (Suc ?k) ((0, hs4) # A)))"
      "wfx h4 hs4 A (d, col @ [?n]) B" "Suc ?k < length hs4"
      "length hs4 = max (length hs) (Suc (Suc ?k))" "last hs4 = last hs" "brk h3 \<le> brk h4"
      by blast
    have len: "length (col @ [?n]) < length hs4" using cl(5) by simp
    from Cons.IH [OF cl(4) len tails] obtain h5 hs5 col'' where rec:
      "insert_node h4 rs (Some (last (lvl (length (col @ [?n])) ((0, hs4) # A))))
         (lasto None (col @ [?n])) d =
       Some (h5, drop (Suc (leading_heads rs)) rs, Some (brk h4))"
      "wfx h5 hs5 A (d, (col @ [?n]) @ col'') B" "chainF (fld prev_layer h5) col'' None"
      "hd col'' = brk h4" "length col'' = Suc (leading_heads rs)"
      "length hs5 = max (length hs4) (length (col @ [?n]) + length col'')"
      "last hs5 = last hs4" "brk h4 \<le> brk h5"
      by blast
    from rec(5) have ne: "col'' \<noteq> []" by auto
    from wfx_special [OF rec(2)] have "fld data h5 ?n = Some d" by (simp add: downs_def)
    then have ln: "live h5 ?n" by (rule fld_live)
    let ?h6 = "upd h5 ?n (prev_layer_update (\<lambda>_. Some (brk h4)))"
    have run: "insert_node h (r # rs) (Some ?p) (lasto None col) d =
        Some (?h6, drop (Suc (leading_heads rs)) rs, Some ?n)"
      unfolding h3(4) using rec(1)
      by (simp add: False cl(1,2,3) deref_Some update_live [OF ln])
    have wx6: "wfx ?h6 hs5 A (d, col @ ?n # col'') B"
      using wfx_upd_up [OF rec(2), of ?n] by simp
    from wfx_distinct [OF rec(2)] have n_notin: "?n \<notin> set col''" by auto
    have "chainF (fld prev_layer ?h6) col'' None = chainF (fld prev_layer h5) col'' None"
      using n_notin by (intro chainF_cong) auto
    with rec(3) have "chainF (fld prev_layer ?h6) col'' None" by simp
    moreover have "fld prev_layer ?h6 ?n = Some (Some (brk h4))"
      using live_fld [OF ln, of prev_layer] by auto
    ultimately have ch6: "chainF (fld prev_layer ?h6) (?n # col'') None"
      using rec(4) ne by (simp add: hdo_hd)
    have "length (?n # col'') = Suc (leading_heads (r # rs))"
      using rec(5) False by (simp add: leading_heads_Cons)
    moreover have "drop (Suc (leading_heads (r # rs))) (r # rs) = drop (Suc (leading_heads rs)) rs"
      using False by (simp add: leading_heads_Cons)
    moreover have "length hs5 = max (length hs) (length col + length (?n # col''))"
      using rec(6) cl(6) ne by (cases col'') auto
    moreover have "brk h \<le> brk ?h6" using rec(8) cl(8) h3(2) by simp
    moreover have "last hs5 = last hs" using rec(7) cl(7) by simp
    moreover have "hd (?n # col'') = ?n" by simp
    ultimately have "insert_node h (r # rs) (Some ?p) (lasto None col) d =
          Some (?h6, drop (Suc (leading_heads (r # rs))) (r # rs), Some ?n) \<and>
        wfx ?h6 hs5 A (d, col @ ?n # col'') B \<and> chainF (fld prev_layer ?h6) (?n # col'') None \<and>
        hd (?n # col'') = ?n \<and> length (?n # col'') = Suc (leading_heads (r # rs)) \<and>
        length hs5 = max (length hs) (length col + length (?n # col'')) \<and>
        last hs5 = last hs \<and> brk h \<le> brk ?h6"
      using run wx6 ch6 by presburger
    then show ?thesis by blast
  qed
qed

subsection \<open>\<open>skip_list_insert\<close>\<close>


lemma insert_node_no_tails:
  "\<forall>r\<in>set rs. coin_flip r \<noteq> 0 \<Longrightarrow> insert_node h rs p nl d = None"
proof (induction rs arbitrary: h p nl)
  case Nil
  show ?case by simp
next
  case (Cons r rs)
  then have IH: "\<And>h p nl. insert_node h rs p nl d = None" and r: "coin_flip r \<noteq> 0" by auto
  show ?case using r by (simp add: IH split: Option.bind_splits prod.splits)
qed

lemma insert_spec:
  assumes "wf_sl h sl hs cs"
  shows "\<exists>A B. cs = A @ B \<and> (A = [] \<or> gt_func sl d (fst (last A))) \<and>
           (B = [] \<or> \<not> gt_func sl d (fst (hd B))) \<and>
           (if hit d B then skip_list_insert h rs sl d = Some (h, rs, sl, 0)
            else if \<exists>r\<in>set rs. coin_flip r = 0
            then \<exists>h' hs' col. skip_list_insert h rs sl d =
                     Some (h', drop (Suc (leading_heads rs)) rs, sl\<lparr>sl_size := sl_size sl + 1\<rparr>, 1) \<and>
                   well_formed h' hs' (A @ (d, col) # B) \<and> last hs' = last hs \<and>
                   length col = Suc (leading_heads rs) \<and>
                   length hs' = max (length hs) (length col)
            else skip_list_insert h rs sl d = None)"
proof -
  from assms have wf: "well_formed h hs cs" by (simp add: wf_sl_def)
  from probe [OF assms, of d rs] obtain A B where AB:
    "cs = A @ B" "A = [] \<or> gt_func sl d (fst (last A))" "B = [] \<or> \<not> gt_func sl d (fst (hd B))"
    "hit d B \<longrightarrow> skip_list_insert h rs sl d = Some (h, rs, sl, 0)"
    "\<not> hit d B \<longrightarrow> skip_list_insert h rs sl d =
              do {
                (h1, rs', nn) \<leftarrow> insert_node h rs (Some (last (lvl 0 ((0, hs) # A)))) None d;
                Some (h1, rs', sl\<lparr>sl_size := sl_size sl + 1\<rparr>, 1)
              }"
    by blast
  have body: "if hit d B then skip_list_insert h rs sl d = Some (h, rs, sl, 0)
            else if \<exists>r\<in>set rs. coin_flip r = 0
            then \<exists>h' hs' col. skip_list_insert h rs sl d =
                     Some (h', drop (Suc (leading_heads rs)) rs, sl\<lparr>sl_size := sl_size sl + 1\<rparr>, 1) \<and>
                   well_formed h' hs' (A @ (d, col) # B) \<and> last hs' = last hs \<and>
                   length col = Suc (leading_heads rs) \<and>
                   length hs' = max (length hs) (length col)
            else skip_list_insert h rs sl d = None"
  proof (cases "hit d B")
    case True
    with AB(4) show ?thesis by simp
  next
    case nh: False
    with AB(5) have eq: "skip_list_insert h rs sl d =
              do {
                (h1, rs', nn) \<leftarrow> insert_node h rs (Some (last (lvl 0 ((0, hs) # A)))) None d;
                Some (h1, rs', sl\<lparr>sl_size := sl_size sl + 1\<rparr>, 1)
              }" by simp
    show ?thesis
    proof (cases "\<exists>r\<in>set rs. coin_flip r = 0")
      case False
      then have "insert_node h rs (Some (last (lvl 0 ((0, hs) # A)))) None d = None"
        by (intro insert_node_no_tails) simp
      with nh False eq show ?thesis by simp
    next
      case True
      from wf AB(1) have wx: "wfx h hs A (d, []) B" by (simp add: wfx_empty)
      from wf have len: "length ([]::addr list) < length hs" by (simp add: well_formed_def)
      from insert_node_spec [OF True wx len] obtain h' hs' col' where res:
        "insert_node h rs (Some (last (lvl 0 ((0, hs) # A)))) None d =
           Some (h', drop (Suc (leading_heads rs)) rs, Some (brk h))"
        "wfx h' hs' A (d, col') B" "chainF (fld prev_layer h') col' None"
        "length col' = Suc (leading_heads rs)" "length hs' = max (length hs) (length col')"
        "last hs' = last hs"
        by auto
      from res(4) have "col' \<noteq> []" by auto
      with res(2,3) have "well_formed h' hs' (A @ (d, col') # B)"
        by (simp add: wfx_full ups_def)
      moreover have "skip_list_insert h rs sl d =
          Some (h', drop (Suc (leading_heads rs)) rs, sl\<lparr>sl_size := sl_size sl + 1\<rparr>, 1)"
        by (simp add: eq res(1))
      ultimately have "\<exists>h' hs' col. skip_list_insert h rs sl d =
                     Some (h', drop (Suc (leading_heads rs)) rs, sl\<lparr>sl_size := sl_size sl + 1\<rparr>, 1) \<and>
                   well_formed h' hs' (A @ (d, col) # B) \<and> last hs' = last hs \<and>
                   length col = Suc (leading_heads rs) \<and>
                   length hs' = max (length hs) (length col)"
        using res(4,5,6) by blast
      with nh True show ?thesis by simp
    qed
  qed
  with AB(1,2,3) show ?thesis by blast
qed

lemma row_chain: "chainF (fld next_node h) xs None \<Longrightarrow> row h (hdo xs None) = Some xs"
proof (induction xs)
  case Nil
  show ?case by (subst row.simps) simp
next
  case (Cons a as)
  then have nx: "fld next_node h a = Some (hdo as None)" and IH: "row h (hdo as None) = Some as"
    by simp_all
  from nx obtain n where n: "cells h a = Some n" "next_node n = hdo as None"
    by (auto simp: fld_def)
  show ?case by (subst row.simps) (simp add: n IH)
qed

lemma layers_wf:
  assumes wf: "well_formed h hs cs"
  shows "k < length hs \<Longrightarrow> layers h (Some (hs ! k)) = Some (rev (map (\<lambda>j. lvl j cs) [0..<Suc k]))"
proof (induction k)
  case 0
  from wf_horiz [OF wf 0] lvl_full [OF 0, of cs]
  have nx: "fld next_node h (hs ! 0) = Some (hdo (lvl 0 cs) None)"
    and ch: "chainF (fld next_node h) (lvl 0 cs) None" by simp_all
  from wf_down [OF wf, of "(0, hs)" 0] 0 have nl: "fld next_layer h (hs ! 0) = Some None" by simp
  from nx nl obtain n where n: "cells h (hs ! 0) = Some n" "next_node n = hdo (lvl 0 cs) None"
    "next_layer n = None" by (auto simp: fld_def)
  have "layers h None = Some []" by (subst layers.simps) simp
  then show ?case by (subst layers.simps) (simp add: n row_chain [OF ch])
next
  case (Suc k)
  then have k: "k < length hs" and IH: "layers h (Some (hs ! k)) = Some (rev (map (\<lambda>j. lvl j cs) [0..<Suc k]))"
    by simp_all
  from wf_horiz [OF wf Suc.prems] lvl_full [OF Suc.prems, of cs]
  have nx: "fld next_node h (hs ! Suc k) = Some (hdo (lvl (Suc k) cs) None)"
    and ch: "chainF (fld next_node h) (lvl (Suc k) cs) None" by simp_all
  from wf_down [OF wf, of "(0, hs)" "Suc k"] Suc.prems
  have nl: "fld next_layer h (hs ! Suc k) = Some (Some (hs ! k))" by simp
  from nx nl obtain n where n: "cells h (hs ! Suc k) = Some n" "next_node n = hdo (lvl (Suc k) cs) None"
    "next_layer n = Some (hs ! k)" by (auto simp: fld_def)
  show ?case by (subst layers.simps) (simp add: n row_chain [OF ch] IH)
qed

lemma layers_top:
  assumes "wf_sl h sl hs cs"
  shows "layers h (first_node sl) = Some (rev (map (\<lambda>j. lvl j cs) [0..<length hs]))"
proof -
  from assms have wf: "well_formed h hs cs" and fn: "first_node sl = Some (last hs)" and ne: "hs \<noteq> []"
    by (simp_all add: wf_sl_def well_formed_def)
  from ne obtain n where n: "length hs = Suc n" by (cases hs) auto
  with ne have "last hs = hs ! n" by (simp add: last_conv_nth)
  with layers_wf [OF wf, of n] fn n show ?thesis by simp
qed

lemma lvl_payloads:
  assumes wf: "well_formed h hs cs"
  shows "map (dat h) (lvl k cs) = map fst (filter (\<lambda>c. k < length (snd c)) cs)"
proof -
  have "dat h (snd c ! k) = fst c" if "c \<in> set (filter (\<lambda>c. k < length (snd c)) cs)" for c
    using wf_data [OF wf, of c k] that by simp
  then show ?thesis by (simp add: lvl_def)
qed

lemma level0_wf:
  assumes "wf_sl h sl hs cs"
  shows "level0 h sl = Some (map fst cs)"
proof -
  from assms have wf: "well_formed h hs cs" and ne: "hs \<noteq> []"
    by (simp_all add: wf_sl_def well_formed_def)
  from ne obtain n where n: "length hs = Suc n" by (cases hs) auto
  have "filter (\<lambda>c. 0 < length (snd c)) cs = cs"
    using wf by (auto simp: well_formed_def filter_id_conv)
  then have "map (dat h) (lvl 0 cs) = map fst cs" using lvl_payloads [OF wf, of 0] by simp
  moreover have "last (rev (map (\<lambda>j. lvl j cs) [0..<length hs])) = lvl 0 cs"
    unfolding n by (simp add: last_rev upt_conv_Cons del: upt_Suc)
  moreover have "rev (map (\<lambda>j. lvl j cs) [0..<length hs]) \<noteq> []" using ne by simp
  ultimately show ?thesis by (simp add: level0_def layers_top [OF assms])
qed

lemma stacked_pair:
  assumes wf: "well_formed h hs cs"
  shows "subseq (map (dat h) (lvl (Suc k) cs)) (map (dat h) (lvl k cs)) \<and>
         list_all (linked_down h (lvl k cs)) (lvl (Suc k) cs)"
proof
  have "filter (\<lambda>c. Suc k < length (snd c)) cs =
        filter (\<lambda>c. Suc k < length (snd c)) (filter (\<lambda>c. k < length (snd c)) cs)"
    by (simp add: conj_commute) (metis (mono_tags, lifting) Suc_lessD filter_cong)
  then have "subseq (filter (\<lambda>c. Suc k < length (snd c)) cs) (filter (\<lambda>c. k < length (snd c)) cs)"
    by (metis subseq_filter_left)
  then show "subseq (map (dat h) (lvl (Suc k) cs)) (map (dat h) (lvl k cs))"
    unfolding lvl_payloads [OF wf] by (rule subseq_map)
next
  have "linked_down h (lvl k cs) a" if "a \<in> set (lvl (Suc k) cs)" for a
  proof -
    from that obtain c where c: "c \<in> set cs" "Suc k < length (snd c)" "a = snd c ! Suc k"
      by (auto simp: set_lvl)
    then have cf: "c \<in> set ((0, hs) # cs)" by simp
    from wf_down [OF wf cf c(2)] c(3) have "fld next_layer h a = Some (Some (snd c ! k))" by simp
    then obtain n where n: "cells h a = Some n" "next_layer n = Some (snd c ! k)"
      by (auto simp: fld_def)
    from wf_data [OF wf cf c(2)] c(3) n(1) have "data n = fst c" by (simp add: dat_def)
    moreover from wf_data [OF wf cf, of k] c(2) have "dat h (snd c ! k) = fst c" by simp
    moreover from c(1,2) have "snd c ! k \<in> set (lvl k cs)"
      unfolding set_lvl by (intro bexI [of _ c]) simp_all
    ultimately show ?thesis by (simp add: linked_down_def n)
  qed
  then show "list_all (linked_down h (lvl k cs)) (lvl (Suc k) cs)" by (simp add: list_all_iff)
qed

lemma stacked_wf:
  assumes wf: "well_formed h hs cs"
  shows "stacked h (rev (map (\<lambda>j. lvl j cs) [0..<Suc k]))"
proof (induction k)
  case 0
  show ?case by simp
next
  case (Suc k)
  with stacked_pair [OF wf, of k] show ?case by simp
qed

lemma insert_sorted:
  assumes tr: "transp gt" and tot: "totalp gt" and so: "sorted_sl gt (A @ B)"
    and a: "A = [] \<or> gt d (fst (last A))" and b: "B = [] \<or> \<not> gt d (fst (hd B))"
    and nh: "\<not> hit d B"
  shows "sorted_sl gt (A @ (d, col) # B)"
proof -
  from sorted_split [OF tr _ a b] so
  have AB: "\<forall>x\<in>set A. gt d (fst x)" "\<forall>y\<in>set B. \<not> gt d (fst y)"
    by (simp_all add: sorted_sl_def)
  have "gt (fst y) d" if y: "y \<in> set B" for y
  proof -
    from y obtain b0 B' where B: "B = b0 # B'" by (cases B) auto
    with nh have b0: "fst b0 \<noteq> d" by (simp add: hit_def)
    have "fst y \<noteq> d"
    proof (cases "y = b0")
      case True
      with b0 show ?thesis by simp
    next
      case False
      with y B have "y \<in> set B'" by simp
      with so B have "gt (fst y) (fst b0)" by (auto simp: sorted_sl_def sorted_wrt_append)
      moreover from AB(2) B have "\<not> gt d (fst b0)" by simp
      ultimately show ?thesis by auto
    qed
    with tot have "gt (fst y) d \<or> gt d (fst y)" by (auto simp: totalp_on_def)
    with AB(2) y show ?thesis by blast
  qed
  with AB(1) so show ?thesis by (auto simp: sorted_sl_def sorted_wrt_append)
qed

lemma remove_sorted: "sorted_sl gt (A @ B) \<Longrightarrow> sorted_sl gt (A @ tl B)"
  by (cases B) (auto simp: sorted_sl_def sorted_wrt_append)

lemma create_wf: "skip_list_create h0 gt = (h, sl) \<Longrightarrow> wf_sl h sl [brk h0] [] \<and> gt_func sl = gt"
  by (auto simp: skip_list_create_def malloc_def wf_sl_def well_formed_def horiz_def downs_def ups_def
      lvl_def addrs_def fld_def)

lemma reachable_inv:
  assumes "reachable gt h sl"
  shows "gt_func sl = gt \<and>
         (\<exists>hs cs. wf_sl h sl hs cs \<and> (transp gt \<and> totalp gt \<longrightarrow> sorted_sl gt cs))"
  using assms
proof (induction rule: reachable.induct)
  case (created h0 h sl)
  from create_wf [OF created] have "wf_sl h sl [brk h0] []" "gt_func sl = gt" by simp_all
  moreover have "sorted_sl gt []" by (simp add: sorted_sl_def)
  ultimately show ?case by blast
next
  case (inserted h sl rs d h' rs' sl' r)
  then obtain hs cs where inv: "gt_func sl = gt" "wf_sl h sl hs cs"
    "transp gt \<and> totalp gt \<longrightarrow> sorted_sl gt cs" by blast
  from insert_spec [OF inv(2), of d rs] inv(1) obtain A B where AB:
    "cs = A @ B" "A = [] \<or> gt d (fst (last A))" "B = [] \<or> \<not> gt d (fst (hd B))"
    "if hit d B then skip_list_insert h rs sl d = Some (h, rs, sl, 0)
     else if \<exists>r\<in>set rs. coin_flip r = 0
     then \<exists>h' hs' col. skip_list_insert h rs sl d =
              Some (h', drop (Suc (leading_heads rs)) rs, sl\<lparr>sl_size := sl_size sl + 1\<rparr>, 1) \<and>
            well_formed h' hs' (A @ (d, col) # B) \<and> last hs' = last hs \<and>
            length col = Suc (leading_heads rs) \<and>
            length hs' = max (length hs) (length col)
     else skip_list_insert h rs sl d = None"
    by blast
  show ?case
  proof (cases "hit d B")
    case True
    with AB(4) inserted.hyps(2) have "h' = h" "sl' = sl" by simp_all
    with inv show ?thesis by blast
  next
    case nh: False
    with AB(4) inserted.hyps(2) have tails: "\<exists>r\<in>set rs. coin_flip r = 0" by (auto split: if_splits)
    with AB(4) nh inserted.hyps(2) obtain hs' col where res:
      "sl' = sl\<lparr>sl_size := sl_size sl + 1\<rparr>" "well_formed h' hs' (A @ (d, col) # B)"
      "last hs' = last hs" by auto
    from inv(2) res have "wf_sl h' sl' hs' (A @ (d, col) # B)" by (simp add: wf_sl_def)
    moreover have "transp gt \<and> totalp gt \<longrightarrow> sorted_sl gt (A @ (d, col) # B)"
      using insert_sorted [of gt A B d col] AB(2,3) nh inv(3) AB(1) by blast
    moreover have "gt_func sl' = gt" using res(1) inv(1) by simp
    ultimately show ?thesis by blast
  qed
next
  case (removed h sl d h' sl' r)
  then obtain hs cs where inv: "gt_func sl = gt" "wf_sl h sl hs cs"
    "transp gt \<and> totalp gt \<longrightarrow> sorted_sl gt cs" by blast
  from remove_spec [OF inv(2), of d] obtain A B where AB: "cs = A @ B"
    "if hit d B
     then \<exists>h' hs'. skip_list_remove h sl d =
              Some (h', sl\<lparr>first_node := Some (last hs'), sl_size := sl_size sl - 1\<rparr>, 1) \<and>
            well_formed h' hs' (A @ tl B) \<and> brk h' = brk h \<and>
            (length hs' = 1 \<or> lvl (length hs' - 1) (A @ tl B) \<noteq> []) \<and>
            (\<exists>n. hs' = take n hs)
     else skip_list_remove h sl d = Some (h, sl, 0)"
    by blast
  show ?case
  proof (cases "hit d B")
    case False
    with AB(2) removed.hyps(2) have "h' = h" "sl' = sl" by simp_all
    with inv show ?thesis by blast
  next
    case True
    with AB(2) removed.hyps(2) obtain hs' where res:
      "sl' = sl\<lparr>first_node := Some (last hs'), sl_size := sl_size sl - 1\<rparr>"
      "well_formed h' hs' (A @ tl B)" by auto
    then have "wf_sl h' sl' hs' (A @ tl B)" by (simp add: wf_sl_def)
    moreover have "transp gt \<and> totalp gt \<longrightarrow> sorted_sl gt (A @ tl B)"
      using remove_sorted [of gt A B] inv(3) AB(1) by blast
    moreover have "gt_func sl' = gt" using res(1) inv(1) by simp
    ultimately show ?thesis by blast
  qed
qed

section \<open>States of a running program\<close>


lemma create_run: "skip_list_create heap0 gt = (one_heap, fresh_sl gt)"
  by (simp add: skip_list_create_def malloc_def heap0_def one_heap_def fresh_sl_def heap_of_def node_def fun_eq_iff)

lemma half2_run: "skip_list_insert half_heap [0] half_sl 3 = Some (half2_heap, [], half2_sl, 1)"
  apply (simp add: skip_list_insert_def half_sl_def)
  apply (subst find_previous.simps)
  apply (subst find_previous_scan.simps)
  apply (simp add: deref_def update_def coin_flip_def malloc_def half_heap_def half2_heap_def half2_sl_def
    heap_of_def node_def fun_eq_iff gt_half_def)
  done

lemma tall2_run: "skip_list_insert tall_heap [0] tall_sl 3 = Some (tall2_heap, [], tall2_sl, 1)"
  apply (simp add: skip_list_insert_def tall_sl_def)
  apply (subst find_previous.simps)
  apply (subst find_previous_scan.simps)
  apply (simp add: deref_def tall_heap_def heap_of_def node_def gt_nat_def)
  apply (subst find_previous.simps)
  apply (subst find_previous_scan.simps)
  apply (simp add: deref_def update_def coin_flip_def malloc_def tall_heap_def tall2_heap_def tall2_sl_def
    heap_of_def node_def fun_eq_iff gt_nat_def)
  apply (auto simp: less_Suc_eq)
  done

lemma tall_run: "skip_list_insert one_heap [1, 0] (fresh_sl gt_nat) 7 = Some (tall_heap, [], tall_sl, 1)"
  apply (simp add: skip_list_insert_def fresh_sl_def)
  apply (subst find_previous.simps)
  apply (subst find_previous_scan.simps)
  apply (simp add: deref_def one_heap_def heap_of_def node_def gt_nat_def malloc_def update_def coin_flip_def)
  apply (subst insert_node_climb.simps)
  apply (simp add: deref_def update_def coin_flip_def malloc_def tall_heap_def tall_sl_def
    heap_of_def node_def fun_eq_iff gt_nat_def)
  done

lemma one_wf: "wf_sl one_heap (fresh_sl gt) [0] []"
  unfolding one_heap_def fresh_sl_def by (simp add: well_formed_defs)

lemma tall2_reach: "reachable gt_nat tall2_heap tall2_sl"
proof -
  have "reachable gt_nat one_heap (fresh_sl gt_nat)" by (rule reachable.created) (rule create_run)
  then have "reachable gt_nat tall_heap tall_sl" using tall_run by (rule reachable.inserted)
  then show ?thesis using tall2_run by (rule reachable.inserted)
qed

lemma half2_reach: "reachable gt_half half2_heap half2_sl"
proof -
  have "reachable gt_half (fst (skip_list_create heap0 gt_half)) (snd (skip_list_create heap0 gt_half))"
    by (rule reachable.created) simp
  then have "reachable gt_half half_heap half_sl" using half_run by (rule reachable.inserted)
  then show ?thesis using half2_run by (rule reachable.inserted)
qed

lemma gt_nat_total: "totalp gt_nat"
  by (auto simp: totalp_on_def gt_nat_def)

lemma sorted_wrt_pair:
  "sorted_wrt P xs \<Longrightarrow> x \<in> set xs \<Longrightarrow> y \<in> set xs \<Longrightarrow> x \<noteq> y \<Longrightarrow> P x y \<or> P y x"
  by (induction xs) auto

lemma insert_returns:
  assumes "wf_sl h sl hs cs" and "\<exists>r\<in>set rs. coin_flip r = 0"
  shows "\<exists>res. skip_list_insert h rs sl d = Some res"
proof -
  from insert_spec [OF assms(1), of d rs] obtain A B where
    "if hit d B then skip_list_insert h rs sl d = Some (h, rs, sl, 0)
     else if \<exists>r\<in>set rs. coin_flip r = 0
     then \<exists>h' hs' col. skip_list_insert h rs sl d =
              Some (h', drop (Suc (leading_heads rs)) rs, sl\<lparr>sl_size := sl_size sl + 1\<rparr>, 1) \<and>
            well_formed h' hs' (A @ (d, col) # B) \<and> last hs' = last hs \<and>
            length col = Suc (leading_heads rs) \<and>
            length hs' = max (length hs) (length col)
     else skip_list_insert h rs sl d = None"
    by blast
  with assms(2) show ?thesis by (cases "hit d B") auto
qed

subsection \<open>The height of a new column\<close>

text \<open>
  Claim C8. When \<open>skip_list_insert\<close> returns 1 on a well-formed skip list, the new
  payload \<open>d\<close> has a column \<open>col\<close> of its own between the columns \<open>A\<close> before and
  \<open>B\<close> after the place the search found. The column is not empty, so \<open>d\<close> is on
  level 0; its height is one more than the number of leading heads in the values of
  \<open>rand()\<close>, and it has used as many of those values as it is high. The structure has
  as many levels as before, or as many as the column is high when that is more: each
  promotion that reached the top made one new level. The structure is well-formed again,
  with the same topmost header, and the element count is one more.
\<close>

theorem insert_column_height:
  assumes "wf_sl h sl hs cs" and "skip_list_insert h rs sl d = Some (h', rs', sl', 1)"
  shows "\<exists>A B col hs'. cs = A @ B \<and> wf_sl h' sl' hs' (A @ (d, col) # B) \<and>
           length col = Suc (leading_heads rs) \<and> rs' = drop (length col) rs \<and>
           length hs' = max (length hs) (length col) \<and> sl_size sl' = sl_size sl + 1"
proof -
  from assms(1) have fn: "first_node sl = Some (last hs)" by (simp add: wf_sl_def)
  from insert_spec [OF assms(1), of d rs] obtain A B where AB: "cs = A @ B"
    "if hit d B then skip_list_insert h rs sl d = Some (h, rs, sl, 0)
     else if \<exists>r\<in>set rs. coin_flip r = 0
     then \<exists>h' hs' col. skip_list_insert h rs sl d =
              Some (h', drop (Suc (leading_heads rs)) rs, sl\<lparr>sl_size := sl_size sl + 1\<rparr>, 1) \<and>
            well_formed h' hs' (A @ (d, col) # B) \<and> last hs' = last hs \<and>
            length col = Suc (leading_heads rs) \<and>
            length hs' = max (length hs) (length col)
     else skip_list_insert h rs sl d = None"
    by blast
  from AB(2) assms(2) have nh: "\<not> hit d B" by auto
  with AB(2) assms(2) have tails: "\<exists>r\<in>set rs. coin_flip r = 0" by (auto split: if_splits)
  with AB(2) nh assms(2) obtain hs' col where res:
    "rs' = drop (Suc (leading_heads rs)) rs" "sl' = sl\<lparr>sl_size := sl_size sl + 1\<rparr>"
    "well_formed h' hs' (A @ (d, col) # B)" "last hs' = last hs"
    "length col = Suc (leading_heads rs)" "length hs' = max (length hs) (length col)"
    by auto
  from res(2,3,4) fn have "wf_sl h' sl' hs' (A @ (d, col) # B)" by (simp add: wf_sl_def)
  moreover from res(1,5) have "rs' = drop (length col) rs" by simp
  moreover from res(2) have "sl_size sl' = sl_size sl + 1" by simp
  ultimately show ?thesis using AB(1) res(5,6) by blast
qed

theorem insert_column_height_witness:
  "wf_sl one_heap (fresh_sl gt_nat) [0] [] \<and>
   skip_list_insert one_heap [1, 0] (fresh_sl gt_nat) 7 = Some (tall_heap, [], tall_sl, 1) \<and>
   leading_heads [1, 0] = 1 \<and>
   (\<exists>col hs'. wf_sl tall_heap tall_sl hs' [(7, col)] \<and> length col = 2 \<and> length hs' = 2)"
proof -
  have lh: "leading_heads [1, 0] = 1" by (simp add: leading_heads_def coin_flip_def)
  from insert_column_height [OF one_wf tall_run] lh
  obtain A B col hs' where "[] = A @ B" "wf_sl tall_heap tall_sl hs' (A @ (7, col) # B)"
    "length col = 2" "length hs' = max (length [0::nat]) (length col)"
    by auto
  then have "wf_sl tall_heap tall_sl hs' [(7, col)] \<and> length col = 2 \<and> length hs' = 2" by simp
  with one_wf tall_run lh show ?thesis by blast
qed

subsection \<open>A second pointer that is order-equal\<close>

lemma half2_wf: "wf_sl half2_heap half2_sl [0] [(3, [2]), (2, [1])]"
  unfolding half2_heap_def half2_sl_def by (simp add: well_formed_defs)

text \<open>
  The list that stores 3 and 2 under \<open>gt_half\<close> is reached by inserting 2 and then 3.
  It stores 2, and 3 is another pointer that is order-equal to 2; but 3 is stored itself:
  inserting it returns 0, and removing it returns 1.
\<close>

theorem stored_order_equal_pointer_counterexample:
  "reachable gt_half half2_heap half2_sl \<and> wf_sl half2_heap half2_sl [0] [(3, [2]), (2, [1])] \<and>
   level0 half2_heap half2_sl = Some [3, 2] \<and> (3::nat) \<noteq> 2 \<and>
   \<not> gt_func half2_sl 2 3 \<and> \<not> gt_func half2_sl 3 2 \<and>
   map_option (snd \<circ> snd \<circ> snd) (skip_list_insert half2_heap [0] half2_sl 3) = Some 0 \<and>
   map_option (snd \<circ> snd) (skip_list_remove half2_heap half2_sl 3) = Some 1"
proof -
  have "level0 half2_heap half2_sl = Some [3, 2]"
    unfolding half2_heap_def half2_sl_def heap_of_def node_def by code_simp
  moreover have "map_option (snd \<circ> snd \<circ> snd) (skip_list_insert half2_heap [0] half2_sl 3) = Some 0"
    unfolding half2_heap_def half2_sl_def heap_of_def node_def by code_simp
  moreover have "map_option (snd \<circ> snd) (skip_list_remove half2_heap half2_sl 3) = Some 1"
    unfolding half2_heap_def half2_sl_def heap_of_def node_def by code_simp
  moreover have "\<not> gt_func half2_sl 2 3" "\<not> gt_func half2_sl 3 2"
    by (simp_all add: half2_sl_def gt_half_def)
  ultimately show ?thesis using half2_reach half2_wf by simp
qed

text \<open>
  Claim C10, for a pointer that is not stored. Take a well-formed skip list, a stored
  payload \<open>p\<close>, and another pointer \<open>q\<close> that is order-equal to \<open>p\<close> and is not
  stored itself. Then \<open>skip_list_insert\<close> of \<open>q\<close> returns 1 (the values of \<open>rand()\<close>
  holding a tails), the structure it leaves is well-formed and stores both \<open>p\<close> and
  \<open>q\<close>, and the element count is one more; and \<open>skip_list_remove\<close> of \<open>q\<close> returns
  0 and gives back the store and the container as they were.
\<close>

theorem order_equal_pointer_is_new:
  assumes "wf_sl h sl hs cs"
    and "p \<in> set (map fst cs)" and "q \<notin> set (map fst cs)" and "q \<noteq> p"
    and "\<not> gt_func sl p q" and "\<not> gt_func sl q p"
    and "\<exists>r\<in>set rs. coin_flip r = 0"
  shows "(\<exists>h' rs' sl' hs' A B col. skip_list_insert h rs sl q = Some (h', rs', sl', 1) \<and>
            cs = A @ B \<and> wf_sl h' sl' hs' (A @ (q, col) # B) \<and>
            p \<in> set (map fst (A @ (q, col) # B)) \<and> q \<in> set (map fst (A @ (q, col) # B)) \<and>
            sl_size sl' = sl_size sl + 1) \<and>
         skip_list_remove h sl q = Some (h, sl, 0)"
proof -
  note nq = assms(3)
  from assms(1) have fn: "first_node sl = Some (last hs)" by (simp add: wf_sl_def)
  from insert_spec [OF assms(1), of q rs] obtain A B where AB: "cs = A @ B"
    "if hit q B then skip_list_insert h rs sl q = Some (h, rs, sl, 0)
     else if \<exists>r\<in>set rs. coin_flip r = 0
     then \<exists>h' hs' col. skip_list_insert h rs sl q =
              Some (h', drop (Suc (leading_heads rs)) rs, sl\<lparr>sl_size := sl_size sl + 1\<rparr>, 1) \<and>
            well_formed h' hs' (A @ (q, col) # B) \<and> last hs' = last hs \<and>
            length col = Suc (leading_heads rs) \<and>
            length hs' = max (length hs) (length col)
     else skip_list_insert h rs sl q = None"
    by blast
  from hit_stored [of q B A] nq AB(1) have nh: "\<not> hit q B" by blast
  with AB(2) assms(7) obtain h' hs' col where res:
    "skip_list_insert h rs sl q =
       Some (h', drop (Suc (leading_heads rs)) rs, sl\<lparr>sl_size := sl_size sl + 1\<rparr>, 1)"
    "well_formed h' hs' (A @ (q, col) # B)" "last hs' = last hs"
    by auto
  from res(2,3) fn have "wf_sl h' (sl\<lparr>sl_size := sl_size sl + 1\<rparr>) hs' (A @ (q, col) # B)"
    by (simp add: wf_sl_def)
  moreover from assms(2) AB(1) have "p \<in> set (map fst (A @ (q, col) # B))" by auto
  moreover have "q \<in> set (map fst (A @ (q, col) # B))" by simp
  ultimately have ins: "\<exists>h' rs' sl' hs' A B col. skip_list_insert h rs sl q = Some (h', rs', sl', 1) \<and>
            cs = A @ B \<and> wf_sl h' sl' hs' (A @ (q, col) # B) \<and>
            p \<in> set (map fst (A @ (q, col) # B)) \<and> q \<in> set (map fst (A @ (q, col) # B)) \<and>
            sl_size sl' = sl_size sl + 1"
    using res(1) AB(1)
    by (intro exI [of _ h'] exI [of _ "drop (Suc (leading_heads rs)) rs"]
        exI [of _ "sl\<lparr>sl_size := sl_size sl + 1\<rparr>"] exI [of _ hs'] exI [of _ A] exI [of _ B]
        exI [of _ col]) simp
  from probe [OF assms(1), of q] obtain A' B' where
    "cs = A' @ B'" "\<not> hit q B' \<longrightarrow> skip_list_remove h sl q = Some (h, sl, 0)" by blast
  with hit_stored [of q B' A'] nq have "skip_list_remove h sl q = Some (h, sl, 0)" by blast
  with ins show ?thesis by blast
qed

theorem order_equal_pointer_is_new_witness:
  "wf_sl half_heap half_sl [0] [(2, [1])] \<and> (3::nat) \<noteq> 2 \<and>
   \<not> gt_func half_sl 2 3 \<and> \<not> gt_func half_sl 3 2 \<and>
   skip_list_insert half_heap [0] half_sl 3 = Some (half2_heap, [], half2_sl, 1) \<and>
   level0 half2_heap half2_sl = Some [3, 2] \<and>
   skip_list_remove half_heap half_sl 3 = Some (half_heap, half_sl, 0)"
proof -
  have hy: "(2::nat) \<in> set (map fst [(2::nat, [1::nat])])" "(3::nat) \<notin> set (map fst [(2::nat, [1::nat])])"
    "(3::nat) \<noteq> 2" "\<not> gt_func half_sl 2 3" "\<not> gt_func half_sl 3 2"
    "\<exists>r\<in>set [0::nat]. coin_flip r = 0"
    by (simp_all add: half_sl_def gt_half_def coin_flip_def)
  have lv: "level0 half2_heap half2_sl = Some [3, 2]"
    unfolding half2_heap_def half2_sl_def heap_of_def node_def by code_simp
  from order_equal_pointer_is_new [OF half_wf hy]
  have "skip_list_remove half_heap half_sl 3 = Some (half_heap, half_sl, 0)" by blast
  with half_wf hy half2_run lv show ?thesis by simp
qed

subsection \<open>The order of level 0\<close>

text \<open>
  Under \<open>gt_half\<close>, a transitive and irreflexive comparison, inserting 2 and then 3 into
  a new list gives a level 0 that reads 3, 2: the second payload is order-equal to the
  first, it is not found, and it is placed before it. The sequence is not strictly
  increasing.
\<close>

theorem level0_order_equal_counterexample:
  "transp gt_half \<and> irreflp gt_half \<and> reachable gt_half half2_heap half2_sl \<and>
   level0 half2_heap half2_sl = Some [3, 2] \<and> \<not> increasing gt_half [3, 2]"
proof -
  have "level0 half2_heap half2_sl = Some [3, 2]"
    unfolding half2_heap_def half2_sl_def heap_of_def node_def by code_simp
  moreover have "\<not> increasing gt_half [3, 2]" by (simp add: increasing_def gt_half_def)
  ultimately show ?thesis using gt_half_order half2_reach by simp
qed

text \<open>
  When \<open>gt\<close> is transitive and total, the order holds in every reachable state.
\<close>

lemma level0_increasing_total:
  assumes "transp gt" and "totalp gt" and "reachable gt h sl"
  shows "\<exists>ds. level0 h sl = Some ds \<and> increasing gt ds"
proof -
  from reachable_inv [OF assms(3)] assms(1,2) obtain hs cs where
    "wf_sl h sl hs cs" "sorted_sl gt cs" by blast
  with level0_wf [of h sl hs cs] show ?thesis by (simp add: increasing_def sorted_sl_def)
qed

text \<open>
  A transitive comparison is enough, when no pointer that is inserted is order-equal to
  a different pointer that is stored.
\<close>

lemma insert_sorted_untied:
  assumes tr: "transp gt" and un: "untied gt d (map fst (A @ B))" and so: "sorted_sl gt (A @ B)"
    and a: "A = [] \<or> gt d (fst (last A))" and b: "B = [] \<or> \<not> gt d (fst (hd B))"
    and nh: "\<not> hit d B"
  shows "sorted_sl gt (A @ (d, col) # B)"
proof -
  from sorted_split [OF tr _ a b] so
  have AB: "\<forall>x\<in>set A. gt d (fst x)" "\<forall>y\<in>set B. \<not> gt d (fst y)"
    by (simp_all add: sorted_sl_def)
  have "gt (fst y) d" if y: "y \<in> set B" for y
  proof -
    from y obtain b0 B' where B: "B = b0 # B'" by (cases B) auto
    with nh have b0: "fst b0 \<noteq> d" by (simp add: hit_def)
    have "fst y \<noteq> d"
    proof (cases "y = b0")
      case True
      with b0 show ?thesis by simp
    next
      case False
      with y B have "y \<in> set B'" by simp
      with so B have "gt (fst y) (fst b0)" by (auto simp: sorted_sl_def sorted_wrt_append)
      moreover from AB(2) B have "\<not> gt d (fst b0)" by simp
      ultimately show ?thesis by auto
    qed
    moreover from un y have "fst y = d \<or> gt d (fst y) \<or> gt (fst y) d"
      by (auto simp: untied_def list_all_iff)
    ultimately show ?thesis using AB(2) y by blast
  qed
  with AB(1) so show ?thesis by (auto simp: sorted_sl_def sorted_wrt_append)
qed

lemma reachable_untied_inv:
  assumes tr: "transp gt" and "reachable_untied gt h sl"
  shows "gt_func sl = gt \<and> (\<exists>hs cs. wf_sl h sl hs cs \<and> sorted_sl gt cs)"
  using assms(2)
proof (induction rule: reachable_untied.induct)
  case (created h0 h sl)
  from create_wf [OF created] have "wf_sl h sl [brk h0] []" "gt_func sl = gt" by simp_all
  moreover have "sorted_sl gt []" by (simp add: sorted_sl_def)
  ultimately show ?case by blast
next
  case (inserted h sl ds d rs h' rs' sl' r)
  then obtain hs cs where inv: "gt_func sl = gt" "wf_sl h sl hs cs" "sorted_sl gt cs" by blast
  from level0_wf [OF inv(2)] inserted.hyps(2) have ds: "ds = map fst cs" by simp
  from insert_spec [OF inv(2), of d rs] inv(1) obtain A B where AB:
    "cs = A @ B" "A = [] \<or> gt d (fst (last A))" "B = [] \<or> \<not> gt d (fst (hd B))"
    "if hit d B then skip_list_insert h rs sl d = Some (h, rs, sl, 0)
     else if \<exists>r\<in>set rs. coin_flip r = 0
     then \<exists>h' hs' col. skip_list_insert h rs sl d =
              Some (h', drop (Suc (leading_heads rs)) rs, sl\<lparr>sl_size := sl_size sl + 1\<rparr>, 1) \<and>
            well_formed h' hs' (A @ (d, col) # B) \<and> last hs' = last hs \<and>
            length col = Suc (leading_heads rs) \<and>
            length hs' = max (length hs) (length col)
     else skip_list_insert h rs sl d = None"
    by blast
  show ?case
  proof (cases "hit d B")
    case True
    with AB(4) inserted.hyps(4) have "h' = h" "sl' = sl" by simp_all
    with inv show ?thesis by blast
  next
    case nh: False
    with AB(4) inserted.hyps(4) have tails: "\<exists>r\<in>set rs. coin_flip r = 0" by (auto split: if_splits)
    with AB(4) nh inserted.hyps(4) obtain hs' col where res:
      "sl' = sl\<lparr>sl_size := sl_size sl + 1\<rparr>" "well_formed h' hs' (A @ (d, col) # B)"
      "last hs' = last hs" by auto
    from inv(2) res have "wf_sl h' sl' hs' (A @ (d, col) # B)" by (simp add: wf_sl_def)
    moreover from inserted.hyps(3) ds AB(1) have "untied gt d (map fst (A @ B))" by simp
    from insert_sorted_untied [OF tr this _ AB(2,3) nh, of col] inv(3) AB(1)
    have "sorted_sl gt (A @ (d, col) # B)" by simp
    moreover have "gt_func sl' = gt" using res(1) inv(1) by simp
    ultimately show ?thesis by blast
  qed
next
  case (removed h sl d h' sl' r)
  then obtain hs cs where inv: "gt_func sl = gt" "wf_sl h sl hs cs" "sorted_sl gt cs" by blast
  from remove_spec [OF inv(2), of d] obtain A B where AB: "cs = A @ B"
    "if hit d B
     then \<exists>h' hs'. skip_list_remove h sl d =
              Some (h', sl\<lparr>first_node := Some (last hs'), sl_size := sl_size sl - 1\<rparr>, 1) \<and>
            well_formed h' hs' (A @ tl B) \<and> brk h' = brk h \<and>
            (length hs' = 1 \<or> lvl (length hs' - 1) (A @ tl B) \<noteq> []) \<and>
            (\<exists>n. hs' = take n hs)
     else skip_list_remove h sl d = Some (h, sl, 0)"
    by blast
  show ?case
  proof (cases "hit d B")
    case False
    with AB(2) removed.hyps(2) have "h' = h" "sl' = sl" by simp_all
    with inv show ?thesis by blast
  next
    case True
    with AB(2) removed.hyps(2) obtain hs' where res:
      "sl' = sl\<lparr>first_node := Some (last hs'), sl_size := sl_size sl - 1\<rparr>"
      "well_formed h' hs' (A @ tl B)" by auto
    then have "wf_sl h' sl' hs' (A @ tl B)" by (simp add: wf_sl_def)
    moreover have "sorted_sl gt (A @ tl B)" using remove_sorted [of gt A B] inv(3) AB(1) by blast
    moreover have "gt_func sl' = gt" using res(1) inv(1) by simp
    ultimately show ?thesis by blast
  qed
qed

lemma reachable_untied_reachable: "reachable_untied gt h sl \<Longrightarrow> reachable gt h sl"
  by (induction rule: reachable_untied.induct) (auto intro: reachable.intros)

lemma half5_run: "skip_list_insert half_heap [0] half_sl 5 = Some (half5_heap, [], half5_sl, 1)"
  apply (simp add: skip_list_insert_def half_sl_def)
  apply (subst find_previous.simps)
  apply (subst find_previous_scan.simps)
  apply (simp add: deref_def half_heap_def heap_of_def node_def gt_half_def)
  apply (subst find_previous_scan.simps)
  apply (simp add: deref_def update_def coin_flip_def malloc_def half_heap_def half5_heap_def half5_sl_def
    heap_of_def node_def fun_eq_iff gt_half_def)
  apply (auto simp: less_Suc_eq)
  done

lemma half5_reach: "reachable_untied gt_half half5_heap half5_sl"
proof -
  have c: "reachable_untied gt_half (fst (skip_list_create heap0 gt_half)) (snd (skip_list_create heap0 gt_half))"
    by (rule reachable_untied.created) simp
  have l0: "level0 (fst (skip_list_create heap0 gt_half)) (snd (skip_list_create heap0 gt_half)) = Some []"
    unfolding create_run one_heap_def fresh_sl_def heap_of_def node_def by code_simp
  have "untied gt_half 2 []" by (simp add: untied_def)
  from reachable_untied.inserted [OF c l0 this half_run]
  have h: "reachable_untied gt_half half_heap half_sl" .
  have l1: "level0 half_heap half_sl = Some [2]"
    unfolding half_heap_def half_sl_def heap_of_def node_def by code_simp
  have "untied gt_half 5 [2]" by (simp add: untied_def gt_half_def)
  from reachable_untied.inserted [OF h l1 this half5_run] show ?thesis .
qed

text \<open>
  Claim C5, for calls that insert no tie. Take the states reached from
  \<open>skip_list_create\<close> by calls of \<open>skip_list_insert\<close> and \<open>skip_list_remove\<close>, with
  any values of \<open>rand()\<close>, in which no \<open>skip_list_insert\<close> is passed a pointer that is
  order-equal to a different pointer stored at that moment. When \<open>gt\<close> is transitive,
  in every such state the walk along level 0 returns, and the payloads it reads are
  strictly increasing under \<open>gt\<close>. The comparison may well hold two different pointers
  order-equal, as \<open>gt_half\<close> does.
\<close>

theorem level0_increasing:
  assumes "transp gt" and "reachable_untied gt h sl"
  shows "\<exists>ds. level0 h sl = Some ds \<and> increasing gt ds"
proof -
  from reachable_untied_inv [OF assms] obtain hs cs where
    "wf_sl h sl hs cs" "sorted_sl gt cs" by blast
  with level0_wf [of h sl hs cs] show ?thesis by (simp add: increasing_def sorted_sl_def)
qed

theorem level0_increasing_witness:
  "transp gt_half \<and> reachable_untied gt_half half5_heap half5_sl \<and>
   level0 half5_heap half5_sl = Some [2, 5] \<and> increasing gt_half [2, 5]"
proof -
  have run: "level0 half5_heap half5_sl = Some [2, 5]"
    unfolding half5_heap_def half5_sl_def heap_of_def node_def by code_simp
  from level0_increasing [OF gt_half_order(1) half5_reach] obtain ds where
    ds: "level0 half5_heap half5_sl = Some ds" "increasing gt_half ds" by blast
  from ds(1) run have eq: "ds = [2, 5]" by simp
  from ds(2) have "increasing gt_half [2, 5]" unfolding eq .
  with run gt_half_order(1) half5_reach show ?thesis by blast
qed

subsection \<open>Each level is a subsequence of the level below\<close>

text \<open>
  Claim C6. In every state reached from \<open>skip_list_create\<close> by calls of
  \<open>skip_list_insert\<close> and \<open>skip_list_remove\<close>, under any comparison, the walk over
  the levels from the topmost header returns at least one level, and for every level and
  the level below it: the payloads of the upper level are a subsequence of the payloads of
  the lower one, and the \<open>_next_layer\<close> link of every node of the upper level leads to
  a node of the lower level that holds the same payload.
\<close>

theorem upper_levels_are_subsequences:
  assumes "reachable gt h sl"
  shows "\<exists>ls. layers h (first_node sl) = Some ls \<and> ls \<noteq> [] \<and> stacked h ls"
proof -
  from reachable_inv [OF assms] obtain hs cs where wf: "wf_sl h sl hs cs" by blast
  then have w: "well_formed h hs cs" and ne: "hs \<noteq> []" by (simp_all add: wf_sl_def well_formed_def)
  from ne obtain n where n: "length hs = Suc n" by (cases hs) auto
  from stacked_wf [OF w, of n] n have "stacked h (rev (map (\<lambda>j. lvl j cs) [0..<length hs]))" by simp
  moreover have "rev (map (\<lambda>j. lvl j cs) [0..<length hs]) \<noteq> []" using ne by simp
  ultimately show ?thesis using layers_top [OF wf] by blast
qed

theorem upper_levels_are_subsequences_witness:
  "reachable gt_nat tall2_heap tall2_sl \<and>
   layers tall2_heap (first_node tall2_sl) = Some [[3], [4, 1]] \<and>
   map (map (dat tall2_heap)) [[3], [4, 1]] = [[7], [3, 7]] \<and>
   stacked tall2_heap [[3], [4, 1]]"
proof -
  have run: "layers tall2_heap (first_node tall2_sl) = Some [[3], [4, 1]]"
    unfolding tall2_heap_def tall2_sl_def heap_of_def node_def by code_simp
  have pay: "map (map (dat tall2_heap)) [[3], [4, 1]] = [[7], [3, 7]]"
    unfolding tall2_heap_def heap_of_def node_def by code_simp
  from upper_levels_are_subsequences [OF tall2_reach] obtain ls where
    ls: "layers tall2_heap (first_node tall2_sl) = Some ls" "stacked tall2_heap ls" by blast
  from ls(1) run have eq: "ls = [[3], [4, 1]]" by simp
  from ls(2) have "stacked tall2_heap [[3], [4, 1]]" unfolding eq .
  with run pay tall2_reach show ?thesis by blast
qed

end
